theory Spec2Isabelle
  imports Main "HOL-Library.Word"
begin

unbundle bit_operations_syntax

section \<open>JavaScript strings\<close>

text \<open>
  A string is a list of code units. The model covers code units below 256; every
  length, index and slice of the source counts code units, as \<open>length\<close>,
  \<open>!\<close>, \<open>take\<close> and \<open>drop\<close> do here.
\<close>

definition charCodeAt0 :: "char \<Rightarrow> nat" where
  "charCodeAt0 c = of_char c"

text \<open>\<open>s.slice(a, b)\<close> for \<open>0 \<le> a \<le> b\<close>; indices past the end are clamped.\<close>

definition slice_str :: "nat \<Rightarrow> nat \<Rightarrow> string \<Rightarrow> string" where
  "slice_str a b s = take (b - a) (drop a s)"

text \<open>\<open>s.padStart(n, c)\<close> with a one-character filler.\<close>

definition padStart :: "nat \<Rightarrow> char \<Rightarrow> string \<Rightarrow> string" where
  "padStart n c s = replicate (n - length s) c @ s"

text \<open>
  \<open>toUpperCase\<close> and \<open>toLowerCase\<close> on the ASCII letters (every other character is
  left as it is); the source applies them to codec output and to validated key segments
  only.
\<close>

definition asciiLower :: string where
  "asciiLower = ''abcdefghijklmnopqrstuvwxyz''"

definition asciiUpper :: string where
  "asciiUpper = ''ABCDEFGHIJKLMNOPQRSTUVWXYZ''"

definition upper_char :: "char \<Rightarrow> char" where
  "upper_char c = (case map_of (zip asciiLower asciiUpper) c of None \<Rightarrow> c | Some u \<Rightarrow> u)"

definition lower_char :: "char \<Rightarrow> char" where
  "lower_char c = (case map_of (zip asciiUpper asciiLower) c of None \<Rightarrow> c | Some l \<Rightarrow> l)"

definition toUpperCase :: "string \<Rightarrow> string" where
  "toUpperCase s = map upper_char s"

definition toLowerCase :: "string \<Rightarrow> string" where
  "toLowerCase s = map lower_char s"

text \<open>\<open>s.split(d)\<close> for a one-character separator: never empty, one part more than separators.\<close>

fun split_str :: "char \<Rightarrow> string \<Rightarrow> string list" where
  "split_str d [] = [[]]"
| "split_str d (x # xs) =
     (if x = d then [] # split_str d xs
      else (case split_str d xs of
              [] \<Rightarrow> [[x]]
            | p # ps \<Rightarrow> (x # p) # ps))"

text \<open>\<open>parts.join(sep)\<close>.\<close>

fun join_str :: "string \<Rightarrow> string list \<Rightarrow> string" where
  "join_str sep [] = []"
| "join_str sep [p] = p"
| "join_str sep (p # ps) = p @ sep @ join_str sep ps"

section \<open>Constants (types.ts)\<close>

definition KEY_LENGTH_WITH_HYPHENS :: nat where "KEY_LENGTH_WITH_HYPHENS = 31"
definition KEY_LENGTH_WITHOUT_HYPHENS :: nat where "KEY_LENGTH_WITHOUT_HYPHENS = 28"
definition KEY_PART_LENGTH :: nat where "KEY_PART_LENGTH = 7"
definition UUID_LENGTH :: nat where "UUID_LENGTH = 36"
definition CHECKSUM_LENGTH :: nat where "CHECKSUM_LENGTH = 8"

datatype EntropyBits = Bits128 | Bits160 | Bits256

text \<open>The numeric value of each enum member: a character count.\<close>

fun entropyChars :: "EntropyBits \<Rightarrow> nat" where
  "entropyChars Bits128 = 14"
| "entropyChars Bits160 = 21"
| "entropyChars Bits256 = 42"

record Config =
  hyphens :: bool
  entropySize :: EntropyBits

definition DefaultConfig :: Config where
  "DefaultConfig = \<lparr>hyphens = True, entropySize = Bits160\<rparr>"

text \<open>An option is a function that updates the configuration.\<close>

type_synonym Option = "Config \<Rightarrow> Config"

definition With128BitEntropy :: Option where
  "With128BitEntropy c = c\<lparr>entropySize := Bits128\<rparr>"

definition With160BitEntropy :: Option where
  "With160BitEntropy c = c\<lparr>entropySize := Bits160\<rparr>"

definition With256BitEntropy :: Option where
  "With256BitEntropy c = c\<lparr>entropySize := Bits256\<rparr>"

section \<open>Errors\<close>

text \<open>One constructor per \<open>throw new Error(...)\<close> of the source, named after its message.\<close>

datatype error =
    InvalidKeyFormat                    \<comment> \<open>'Invalid Key format' (Key constructor)\<close>
  | InvalidUUIDKey                      \<comment> \<open>'Invalid UUID Key' (Key.parse)\<close>
  | InvalidUUIDKeyDecode                \<comment> \<open>'Invalid UUID key' (toUUID)\<close>
  | InvalidUUIDLength                   \<comment> \<open>'Invalid UUID length'\<close>
  | PrefixCannotBeEmpty                 \<comment> \<open>'prefix cannot be empty' (newAPIKey)\<close>
  | UUIDMustBe16Bytes                   \<comment> \<open>'UUID must be exactly 16 bytes'\<close>
  | InvalidAPIKeyFormat                 \<comment> \<open>'invalid APIKey format'\<close>
  | ExpectedThreeParts nat              \<comment> \<open>'invalid APIKey format: expected 3 parts, got N'\<close>
  | InvalidPrefixEmpty                  \<comment> \<open>'invalid prefix: cannot be empty'\<close>
  | InsufficientLength                  \<comment> \<open>'invalid Key format: insufficient length'\<close>
  | InvalidChecksumFormat               \<comment> \<open>'invalid checksum format: must be 8 hexadecimal characters'\<close>
  | InvalidChecksum string string       \<comment> \<open>'invalid checksum: expected E, got A'\<close>

section \<open>Key\<close>

text \<open>The class wraps one private string; \<open>Key_toString\<close> reads it.\<close>

datatype Key = MkKey (Key_toString: string)

text \<open>The predicate of \<open>some\<close> in \<open>isValidPart\<close>: true on a character that is rejected.\<close>

definition rejectedChar :: "char \<Rightarrow> bool" where
  "rejectedChar c =
     (let code = charCodeAt0 c in
        code > 90 \<or> (code < 48 \<or> (code > 57 \<and> code < 65)) \<or>
        c = CHR ''I'' \<or> c = CHR ''L'' \<or> c = CHR ''O'' \<or> c = CHR ''U'')"

definition isValidPart :: "string \<Rightarrow> bool" where
  "isValidPart part =
     (if length part \<noteq> KEY_PART_LENGTH then False
      else \<not> list_ex rejectedChar part)"

definition isValid :: "string \<Rightarrow> bool" where
  "isValid k =
     (if length k = KEY_LENGTH_WITH_HYPHENS then
        (if k ! 7 \<noteq> CHR ''-'' \<or> k ! 15 \<noteq> CHR ''-'' \<or> k ! 23 \<noteq> CHR ''-'' then False
         else isValidPart (slice_str 0 7 k) \<and> isValidPart (slice_str 8 15 k) \<and>
              isValidPart (slice_str 16 23 k) \<and> isValidPart (slice_str 24 31 k))
      else if length k = KEY_LENGTH_WITHOUT_HYPHENS then
        isValidPart (slice_str 0 7 k) \<and> isValidPart (slice_str 7 14 k) \<and>
        isValidPart (slice_str 14 21 k) \<and> isValidPart (slice_str 21 28 k)
      else False)"

text \<open>\<open>new Key(value)\<close>.\<close>

definition Key_new :: "string \<Rightarrow> error + Key" where
  "Key_new v = (if \<not> isValid v then Inl InvalidKeyFormat else Inr (MkKey v))"

text \<open>\<open>Key.parse(key)\<close>: its own check comes first, so the constructor's never fails after it.\<close>

definition Key_parse :: "string \<Rightarrow> error + Key" where
  "Key_parse k = (if \<not> isValid k then Inl InvalidUUIDKey else Key_new k)"

definition getParts :: "Key \<Rightarrow> string list" where
  "getParts k =
     (let v = Key_toString k in
      if length v = KEY_LENGTH_WITH_HYPHENS
      then [slice_str 0 7 v, slice_str 8 15 v, slice_str 16 23 v, slice_str 24 31 v]
      else [slice_str 0 7 v, slice_str 7 14 v, slice_str 14 21 v, slice_str 21 28 v])"

section \<open>Node buffers and hexadecimal text\<close>

type_synonym byte = "8 word"

definition hexDigitValue :: "char \<Rightarrow> nat option" where
  "hexDigitValue c =
     (let code = charCodeAt0 c in
      if 48 \<le> code \<and> code \<le> 57 then Some (code - 48)
      else if 97 \<le> code \<and> code \<le> 102 then Some (code - 87)
      else if 65 \<le> code \<and> code \<le> 70 then Some (code - 55)
      else None)"

text \<open>
  \<open>Buffer.from(hex, 'hex')\<close>: two digits make one byte; decoding stops at the first pair
  that is not hexadecimal, and a last single character is dropped.
\<close>

fun bufferFromHex :: "string \<Rightarrow> byte list" where
  "bufferFromHex (a # b # rest) =
     (case (hexDigitValue a, hexDigitValue b) of
        (Some x, Some y) \<Rightarrow> of_nat (16 * x + y) # bufferFromHex rest
      | _ \<Rightarrow> [])"
| "bufferFromHex _ = []"

definition hexChar :: "nat \<Rightarrow> char" where
  "hexChar n = ''0123456789abcdef'' ! (n mod 16)"

text \<open>\<open>buf.toString('hex')\<close>: two lowercase digits for every byte.\<close>

fun bufferToHex :: "byte list \<Rightarrow> string" where
  "bufferToHex [] = []"
| "bufferToHex (b # bs) = hexChar (unat b div 16) # hexChar (unat b mod 16) # bufferToHex bs"

text \<open>\<open>n.toString(16)\<close> for a non-negative integer: lowercase, no leading zero.\<close>

function toString16 :: "int \<Rightarrow> string" where
  "toString16 n =
     (if n < 16 then [hexChar (nat n)] else toString16 (n div 16) @ [hexChar (nat (n mod 16))])"
  by pat_completeness auto
termination
  by (relation "measure nat") auto

declare toString16.simps [simp del]

text \<open>
  The UTF-8 bytes of a string: one byte for a code unit below 128, two bytes for a code
  unit from 128 to 255.
\<close>

fun utf8 :: "string \<Rightarrow> byte list" where
  "utf8 [] = []"
| "utf8 (c # cs) =
     (let code = charCodeAt0 c in
      if code < 128 then of_nat code # utf8 cs
      else of_nat (192 + code div 64) # of_nat (128 + code mod 64) # utf8 cs)"

section \<open>External collaborators\<close>

text \<open>
  The source imports these functions from packages outside the repository
  (\<open>c32check\<close>, \<open>crc\<close>, \<open>crypto\<close>); every function below that calls one of
  them takes the record as its first argument. \<open>crc32\<close> returns an unsigned 32-bit
  number; \<open>randomBytes n\<close> is what the random source hands out when asked for
  \<open>n\<close> bytes.
\<close>

record collaborators =
  c32encode :: "string \<Rightarrow> string"
  c32decode :: "string \<Rightarrow> string"
  crc32 :: "byte list \<Rightarrow> 32 word"
  sha256 :: "byte list \<Rightarrow> byte list"
  randomBytes :: "nat \<Rightarrow> byte list"

section \<open>Key: encoding and decoding\<close>

definition encodePart :: "collaborators \<Rightarrow> string \<Rightarrow> string" where
  "encodePart X hex =
     (let buf = bufferFromHex hex;
          encoded = c32encode X (bufferToHex buf)
      in toUpperCase (padStart 7 CHR ''0'' encoded))"

text \<open>\<open>Key.encode(uuid, withHyphens)\<close>.\<close>

definition Key_encode :: "collaborators \<Rightarrow> string \<Rightarrow> bool \<Rightarrow> error + Key" where
  "Key_encode X uuid withHyphens =
     (if length uuid \<noteq> UUID_LENGTH then Inl InvalidUUIDLength
      else
        let parts = [encodePart X (slice_str 0 8 uuid),
                     encodePart X (slice_str 9 13 uuid @ slice_str 14 18 uuid),
                     encodePart X (slice_str 19 23 uuid @ slice_str 24 28 uuid),
                     encodePart X (slice_str 28 36 uuid)];
            v = (if withHyphens then join_str ''-'' parts else join_str '''' parts)
        in Key_new v)"

text \<open>
  \<open>decode()\<close>: \<open>getParts\<close> always returns four parts, so the four reads by index are
  in range.
\<close>

definition decode :: "collaborators \<Rightarrow> Key \<Rightarrow> string" where
  "decode X k =
     (let parts = getParts k;
          decoded = map (\<lambda>part. c32decode X (toLowerCase part)) parts
      in join_str ''''
           [decoded ! 0, ''-'', take 4 (decoded ! 1), ''-'', drop 4 (decoded ! 1), ''-'',
            take 4 (decoded ! 2), ''-'', drop 4 (decoded ! 2), decoded ! 3])"

definition toUUID :: "collaborators \<Rightarrow> Key \<Rightarrow> error + string" where
  "toUUID X k =
     (if \<not> isValid (Key_toString k) then Inl InvalidUUIDKeyDecode else Inr (decode X k))"

section \<open>APIKey\<close>

record APIKey =
  prefix :: string
  key :: Key
  entropy :: string
  checksum :: string

text \<open>\<open>calculateChecksum(apiKey)\<close>: reads the prefix, the key and the entropy.\<close>

definition calculateChecksum :: "collaborators \<Rightarrow> APIKey \<Rightarrow> string" where
  "calculateChecksum X a =
     (let data = prefix a @ ''_'' @ Key_toString (key a) @ entropy a;
          crc = crc32 X (utf8 data)
      in padStart 8 CHR ''0'' (toUpperCase (toString16 (uint crc))))"

text \<open>
  The constructor: \<open>checksum || calculateChecksum(this)\<close>; the empty string is the one
  string that is falsy.
\<close>

definition APIKey_new :: "collaborators \<Rightarrow> string \<Rightarrow> Key \<Rightarrow> string \<Rightarrow> string \<Rightarrow> APIKey" where
  "APIKey_new X p k e c =
     (let this = \<lparr>prefix = p, key = k, entropy = e, checksum = c\<rparr>
      in this\<lparr>checksum := (if c \<noteq> [] then c else calculateChecksum X this)\<rparr>)"

definition APIKey_toString :: "APIKey \<Rightarrow> string" where
  "APIKey_toString a = prefix a @ ''_'' @ Key_toString (key a) @ entropy a @ ''_'' @ checksum a"

definition applyOptions :: "Option \<Rightarrow> Config" where
  "applyOptions opt = opt DefaultConfig"

definition encodeBase32Crockford :: "collaborators \<Rightarrow> byte list \<Rightarrow> string" where
  "encodeBase32Crockford X buffer = toUpperCase (c32encode X (bufferToHex buffer))"

text \<open>
  \<open>Math.ceil(size * 8 / 5)\<close>: the three sizes give 22.4, 33.6 and 67.2 (up to rounding,
  which stays between the same two integers), so the ceiling is that of the exact quotient.
\<close>

definition entropyByteCount :: "nat \<Rightarrow> nat" where
  "entropyByteCount n = (n * 8 + 4) div 5"

definition generateEntropy :: "collaborators \<Rightarrow> EntropyBits \<Rightarrow> string" where
  "generateEntropy X sz =
     (let bytes = entropyByteCount (entropyChars sz);
          buffer = randomBytes X bytes;
          hash = sha256 X buffer
      in slice_str 0 (entropyChars sz) (encodeBase32Crockford X hash))"

definition newAPIKey :: "collaborators \<Rightarrow> string \<Rightarrow> string \<Rightarrow> Option \<Rightarrow> error + APIKey" where
  "newAPIKey X p uuid opt =
     (if p = [] then Inl PrefixCannotBeEmpty
      else
        let config = applyOptions opt in
        case Key_encode X uuid False of
          Inl e \<Rightarrow> Inl e
        | Inr k \<Rightarrow> Inr (APIKey_new X p k (generateEntropy X (entropySize config)) ''''))"

definition formatUUID :: "byte list \<Rightarrow> string" where
  "formatUUID buffer =
     (let hex = bufferToHex buffer
      in join_str ''-'' [slice_str 0 8 hex, slice_str 8 12 hex, slice_str 12 16 hex,
                         slice_str 16 20 hex, drop 20 hex])"

definition newAPIKeyFromBytes ::
  "collaborators \<Rightarrow> string \<Rightarrow> byte list \<Rightarrow> Option \<Rightarrow> error + APIKey" where
  "newAPIKeyFromBytes X p uuid opt =
     (if length uuid \<noteq> 16 then Inl UUIDMustBe16Bytes
      else newAPIKey X p (formatUUID uuid) opt)"

text \<open>The regular expression \<open>/^[0-9A-F]{8}$/\<close>.\<close>

definition matchesHex8 :: "string \<Rightarrow> bool" where
  "matchesHex8 s = (length s = 8 \<and> list_all (\<lambda>c. c \<in> set ''0123456789ABCDEF'') s)"

definition isValidChecksum :: "string \<Rightarrow> bool" where
  "isValidChecksum c = (if length c \<noteq> CHECKSUM_LENGTH then False else matchesHex8 c)"

text \<open>
  \<open>parse(apikey)\<close>. The destructuring \<open>[prefix, remainder, checksum] = parts\<close> comes
  after the check that there are three parts.
\<close>

definition parse :: "collaborators \<Rightarrow> string \<Rightarrow> error + APIKey" where
  "parse X apikey =
     (if apikey = [] then Inl InvalidAPIKeyFormat
      else
        let parts = split_str CHR ''_'' apikey in
        if length parts \<noteq> 3 then Inl (ExpectedThreeParts (length parts))
        else
          let p = parts ! 0; remainder = parts ! 1; c = parts ! 2 in
          if p = [] then Inl InvalidPrefixEmpty
          else if length remainder < KEY_LENGTH_WITHOUT_HYPHENS then Inl InsufficientLength
          else if \<not> isValidChecksum c then Inl InvalidChecksumFormat
          else
            let keyPart = slice_str 0 KEY_LENGTH_WITHOUT_HYPHENS remainder in
            case Key_parse keyPart of
              Inl e \<Rightarrow> Inl e
            | Inr k \<Rightarrow>
                let e = drop KEY_LENGTH_WITHOUT_HYPHENS remainder;
                    apiKey = APIKey_new X p k e c;
                    expectedChecksum = calculateChecksum X apiKey
                in if c \<noteq> expectedChecksum then Inl (InvalidChecksum expectedChecksum c)
                   else Inr apiKey)"

section \<open>What the specification says of key strings\<close>

text \<open>The Crockford alphabet: the digits and the uppercase letters without I, L, O, U.\<close>

definition crockfordAlphabet :: string where
  "crockfordAlphabet = ''0123456789ABCDEFGHJKMNPQRSTVWXYZ''"

definition crockfordUpper :: "char \<Rightarrow> bool" where
  "crockfordUpper c = (c \<in> set crockfordAlphabet)"

text \<open>A Crockford digit in either case, as the specification's validation rule words it.\<close>

definition crockfordAnyCase :: "char \<Rightarrow> bool" where
  "crockfordAnyCase c = (upper_char c \<in> set crockfordAlphabet)"

text \<open>
  The shape of a key string: 28 characters, or 31 with hyphens at 7, 15 and 23, whose four
  segments of 7 characters satisfy \<open>P\<close>.
\<close>

definition keyShape :: "(char \<Rightarrow> bool) \<Rightarrow> string \<Rightarrow> bool" where
  "keyShape P s =
     ((length s = 28 \<and> list_all P s) \<or>
      (length s = 31 \<and> s ! 7 = CHR ''-'' \<and> s ! 15 = CHR ''-'' \<and> s ! 23 = CHR ''-'' \<and>
       list_all P (slice_str 0 7 s) \<and> list_all P (slice_str 8 15 s) \<and>
       list_all P (slice_str 16 23 s) \<and> list_all P (slice_str 24 31 s)))"

section \<open>What the specification says of UUID strings and of the codec\<close>

definition isHexDigit :: "char \<Rightarrow> bool" where
  "isHexDigit c = (hexDigitValue c \<noteq> None)"

text \<open>
  A valid UUID string: 36 characters, hyphens at 8, 13, 18 and 23, hexadecimal digits (in
  either case) everywhere else.
\<close>

definition validUUID :: "string \<Rightarrow> bool" where
  "validUUID u =
     (length u = 36 \<and>
      u ! 8 = CHR ''-'' \<and> u ! 13 = CHR ''-'' \<and> u ! 18 = CHR ''-'' \<and> u ! 23 = CHR ''-'' \<and>
      list_all isHexDigit (slice_str 0 8 u) \<and> list_all isHexDigit (slice_str 9 13 u) \<and>
      list_all isHexDigit (slice_str 14 18 u) \<and> list_all isHexDigit (slice_str 19 23 u) \<and>
      list_all isHexDigit (slice_str 24 36 u))"

text \<open>The four groups of 8 hexadecimal digits that \<open>Key.encode\<close> cuts out of a UUID string.\<close>

definition uuidGroups :: "string \<Rightarrow> string list" where
  "uuidGroups u =
     [slice_str 0 8 u, slice_str 9 13 u @ slice_str 14 18 u,
      slice_str 19 23 u @ slice_str 24 28 u, slice_str 28 36 u]"

text \<open>
  The codec's contract on one group, as the specification words it: 4 bytes make at most 7
  symbols of the Crockford alphabet (in either case) ...
\<close>

definition encodesGroup :: "collaborators \<Rightarrow> string \<Rightarrow> bool" where
  "encodesGroup X g =
     (let e = c32encode X (bufferToHex (bufferFromHex g))
      in length e \<le> 7 \<and> list_all crockfordAnyCase e)"

text \<open>
  ... and decoding the symbols, zero-padded to 7 and in lowercase, gives the hexadecimal
  text of the 4 bytes back.
\<close>

definition decodesGroup :: "collaborators \<Rightarrow> string \<Rightarrow> bool" where
  "decodesGroup X g =
     (let h = bufferToHex (bufferFromHex g)
      in c32decode X (toLowerCase (padStart 7 CHR ''0'' (c32encode X h))) = h)"

text \<open>The hexadecimal text of the digest that \<open>generateEntropy\<close> hands to the codec.\<close>

definition entropyDigestHex :: "collaborators \<Rightarrow> EntropyBits \<Rightarrow> string" where
  "entropyDigestHex X sz =
     bufferToHex (sha256 X (randomBytes X (entropyByteCount (entropyChars sz))))"

section \<open>Reference collaborators\<close>

text \<open>
  Modelled from the spec: the Base32-Crockford codec (package \<open>c32check\<close>) is not part of
  the repository. The specification describes it as \<open>encode(bytes) -> string\<close> and
  \<open>decode(string) -> hex-string\<close> over the alphabet of digits and letters without
  I, L, O, U, decoding in either case, with 4 bytes making at most 7 symbols. The model
  reads the bytes as one big-endian number: \<open>crockford_encode\<close> writes that number in
  base 32, and \<open>crockford_decode\<close> writes the number of a symbol string in
  hexadecimal, zero-padded to the whole bytes that the symbols carry (7 symbols: 8 digits).
\<close>

definition hexValue :: "string \<Rightarrow> int" where
  "hexValue s =
     foldl (\<lambda>a c. 16 * a + (case hexDigitValue c of Some d \<Rightarrow> int d | None \<Rightarrow> 0)) 0 s"

function c32Digits :: "int \<Rightarrow> string" where
  "c32Digits n =
     (if n < 32 then [crockfordAlphabet ! nat n]
      else c32Digits (n div 32) @ [crockfordAlphabet ! nat (n mod 32)])"
  by pat_completeness auto
termination
  by (relation "measure nat") auto

declare c32Digits.simps [simp del]

definition crockford_encode :: "string \<Rightarrow> string" where
  "crockford_encode hex = c32Digits (hexValue hex)"

fun indexOf :: "char \<Rightarrow> string \<Rightarrow> nat" where
  "indexOf c [] = 0"
| "indexOf c (x # xs) = (if x = c then 0 else Suc (indexOf c xs))"

definition c32Value :: "string \<Rightarrow> int" where
  "c32Value s = foldl (\<lambda>a c. 32 * a + int (indexOf (upper_char c) crockfordAlphabet)) 0 s"

definition crockford_decode :: "string \<Rightarrow> string" where
  "crockford_decode s = padStart (2 * (5 * length s div 8)) CHR ''0'' (toString16 (c32Value s))"

text \<open>
  Modelled from the spec: the CRC32 function (package \<open>crc\<close>) is not part of the
  repository. This is the CRC-32 of IEEE 802.3, bit by bit, on the register read as a
  non-negative integer below \<open>2 ^ 32\<close>: reflected polynomial \<open>0xEDB88320\<close>, initial
  value and final complement \<open>0xFFFFFFFF\<close>.
\<close>

definition crc32_bit :: "int \<Rightarrow> int" where
  "crc32_bit c = (if odd c then (c div 2) XOR 0xEDB88320 else c div 2)"

definition crc32_byte :: "int \<Rightarrow> byte \<Rightarrow> int" where
  "crc32_byte c b = (crc32_bit ^^ 8) (c XOR uint b)"

definition crc32_ieee :: "byte list \<Rightarrow> 32 word" where
  "crc32_ieee bs = word_of_int (foldl crc32_byte 0xFFFFFFFF bs XOR 0xFFFFFFFF)"

text \<open>
  A random source that hands out zero bytes, and SHA-256 tabulated on the three buffers
  of zero bytes that \<open>generateEntropy\<close> then hashes (23, 34 and 68 bytes).
\<close>

definition zeroBytes :: "nat \<Rightarrow> byte list" where
  "zeroBytes n = replicate n 0"

definition sha256_of_zeros :: "byte list \<Rightarrow> byte list" where
  "sha256_of_zeros b =
     bufferFromHex
       (if length b = 23 then ''015275e61fa0d0751c1d9f45541c7804c895404455470710ade3786f282f2da0''
        else if length b = 34 then ''eb142b0cae0baa72a767ebc0823d1be94e14c5bfc52d8e417fc4302fceb6240c''
        else ''1751ac12e70e15b4f76c16775cd329ae55973b612521dab2de828a5cdb6c8ab3'')"

definition reference :: collaborators where
  "reference =
     \<lparr>c32encode = crockford_encode, c32decode = crockford_decode, crc32 = crc32_ieee,
      sha256 = sha256_of_zeros, randomBytes = zeroBytes\<rparr>"

section \<open>The codec as the package c32check computes it\<close>

text \<open>
  The source imports \<open>c32encode\<close> and \<open>c32decode\<close> from the package
  \<open>c32check\<close>, which is not part of the repository. What that package computes on the
  strings the source passes to it:
  \<^item> \<open>c32encode(hex)\<close> (a hexadecimal text; one \<open>0\<close> is put in front of an odd number
    of digits): one symbol \<open>0\<close> for every leading zero byte, then the bytes read as one
    big-endian number in base 32 with no leading zero (nothing for the number 0);
  \<^item> \<open>c32decode(s)\<close>: \<open>s\<close> in uppercase, with \<open>O\<close> read as \<open>0\<close> and \<open>L\<close>,
    \<open>I\<close> as \<open>1\<close>; one byte \<open>00\<close> for every leading symbol \<open>0\<close>, then the number
    of the symbols in hexadecimal with an even number of digits and no leading zero byte
    (nothing for the number 0).
  Both raise on a character outside their alphabet; \<open>Buffer.toString('hex')\<close> and the
  validation of a key keep such characters out.
\<close>

fun leadingZeroBytes :: "string \<Rightarrow> nat" where
  "leadingZeroBytes (a # b # rest) =
     (if a = CHR ''0'' \<and> b = CHR ''0'' then Suc (leadingZeroBytes rest) else 0)"
| "leadingZeroBytes _ = 0"

definition evenDigits :: "string \<Rightarrow> string" where
  "evenDigits s = (if odd (length s) then CHR ''0'' # s else s)"

definition c32check_encode :: "string \<Rightarrow> string" where
  "c32check_encode hex =
     (let h = evenDigits hex; n = hexValue h
      in replicate (leadingZeroBytes h) CHR ''0'' @ (if n = 0 then [] else c32Digits n))"

definition c32normalize :: "char \<Rightarrow> char" where
  "c32normalize c =
     (let u = upper_char c in
      if u = CHR ''O'' then CHR ''0''
      else if u = CHR ''L'' \<or> u = CHR ''I'' then CHR ''1''
      else u)"

definition c32check_decode :: "string \<Rightarrow> string" where
  "c32check_decode s =
     (let t = map c32normalize s;
          zeros = length (takeWhile (\<lambda>c. c = CHR ''0'') t);
          n = foldl (\<lambda>a c. 32 * a + int (indexOf c crockfordAlphabet)) 0 t
      in concat (replicate zeros ''00'') @ evenDigits (if n = 0 then [] else toString16 n))"

text \<open>The collaborators as installed: this codec, with the reference CRC32 and samples.\<close>

definition installed :: collaborators where
  "installed = reference\<lparr>c32encode := c32check_encode, c32decode := c32check_decode\<rparr>"

section \<open>Key validation\<close>

lemma code_in_range:
  assumes "lo \<le> charCodeAt0 c" "charCodeAt0 c < hi"
  shows "c \<in> set (map char_of [lo..<hi])"
proof -
  have "charCodeAt0 c \<in> set [lo..<hi]" using assms by simp
  then have "char_of (charCodeAt0 c) \<in> char_of ` set [lo..<hi]" by (rule imageI)
  then show ?thesis by (simp add: charCodeAt0_def)
qed

lemma codes_48_57: "map char_of [48..<58::nat] = ''0123456789''"
  by (simp add: upt_rec char_of_def bit_0)

lemma codes_65_90: "map char_of [65..<91::nat] = ''ABCDEFGHIJKLMNOPQRSTUVWXYZ''"
  by (simp add: upt_rec char_of_def bit_0)

lemma rejectedChar_iff: "\<not> rejectedChar c \<longleftrightarrow> crockfordUpper c"
proof
  assume "crockfordUpper c"
  then show "\<not> rejectedChar c"
    by (auto simp: crockfordUpper_def crockfordAlphabet_def rejectedChar_def charCodeAt0_def
        Let_def)
next
  assume a: "\<not> rejectedChar c"
  then have "48 \<le> charCodeAt0 c \<and> charCodeAt0 c < 58 \<or>
             65 \<le> charCodeAt0 c \<and> charCodeAt0 c < 91"
    by (auto simp: rejectedChar_def Let_def)
  then have "c \<in> set ''0123456789'' \<or> c \<in> set ''ABCDEFGHIJKLMNOPQRSTUVWXYZ''"
    using code_in_range [of 48 c 58] code_in_range [of 65 c 91]
    unfolding codes_48_57 codes_65_90 by blast
  with a show "crockfordUpper c"
    by (auto simp add: crockfordUpper_def crockfordAlphabet_def rejectedChar_def Let_def)
qed

lemma isValidPart_iff: "isValidPart p \<longleftrightarrow> length p = 7 \<and> list_all crockfordUpper p"
  by (simp add: isValidPart_def KEY_PART_LENGTH_def list_ex_iff list_all_iff
      rejectedChar_iff [symmetric])

lemma list_all_take_drop: "list_all P s \<longleftrightarrow> list_all P (take n s) \<and> list_all P (drop n s)"
  by (metis list_all_append append_take_drop_id)

lemma list_all_28:
  assumes "length s = 28"
  shows "list_all P s \<longleftrightarrow>
         list_all P (slice_str 0 7 s) \<and> list_all P (slice_str 7 14 s) \<and>
         list_all P (slice_str 14 21 s) \<and> list_all P (slice_str 21 28 s)"
  using assms
  by (simp add: slice_str_def list_all_take_drop [of P s 7]
      list_all_take_drop [of P "drop 7 s" 7] list_all_take_drop [of P "drop 14 s" 7])

lemma isValid_keyShape: "isValid s \<longleftrightarrow> keyShape crockfordUpper s"
proof (cases "length s = 31")
  case True
  then show ?thesis
    by (auto simp add: isValid_def keyShape_def KEY_LENGTH_WITH_HYPHENS_def isValidPart_iff
        slice_str_def)
next
  case not31: False
  show ?thesis
  proof (cases "length s = 28")
    case True
    then show ?thesis
      by (simp add: isValid_def keyShape_def KEY_LENGTH_WITH_HYPHENS_def
          KEY_LENGTH_WITHOUT_HYPHENS_def isValidPart_iff list_all_28 [of s])
         (simp add: slice_str_def)
  next
    case False
    with not31 show ?thesis
      by (simp add: isValid_def keyShape_def KEY_LENGTH_WITH_HYPHENS_def
          KEY_LENGTH_WITHOUT_HYPHENS_def)
  qed
qed

text \<open>
  C2 (as amended). \<open>isValid\<close> accepts exactly the strings of length 28, or of length 31
  with hyphens at indices 7, 15 and 23, whose four 7-character segments consist of
  uppercase Crockford digits only; every other string, one with a lowercase letter
  included, is rejected.
\<close>

theorem isValid_uppercase_only: "isValid s \<longleftrightarrow> keyShape crockfordUpper s"
  by (rule isValid_keyShape)

text \<open>
  C2 (as stated) fails: a key string written in lowercase Crockford digits has the shape
  the claim describes, and \<open>isValid\<close> rejects it, since every lowercase letter has a
  code above 90.
\<close>

theorem isValid_lowercase_counterexample:
  "keyShape crockfordAnyCase ''38qarv01et0g6z2cjd9va2zzar0x'' \<and>
   \<not> isValid ''38qarv01et0g6z2cjd9va2zzar0x''"
  by code_simp

section \<open>Key encoding\<close>

lemma lower_upper_char: "lower_char (upper_char c) = lower_char c"
proof (cases "c \<in> set asciiLower")
  case True
  then show ?thesis
    by (auto simp: upper_char_def lower_char_def asciiLower_def asciiUpper_def)
next
  case False
  then have "map_of (zip asciiLower asciiUpper) c = None"
    by (simp add: map_of_eq_None_iff asciiLower_def asciiUpper_def)
  then show ?thesis by (simp add: upper_char_def)
qed

lemma toLowerCase_toUpperCase: "toLowerCase (toUpperCase s) = toLowerCase s"
  by (simp add: toLowerCase_def toUpperCase_def lower_upper_char)

lemma upper_char_zero: "upper_char CHR ''0'' = CHR ''0''"
  by (simp add: upper_char_def asciiLower_def asciiUpper_def)

lemma encodePart_shape:
  assumes "encodesGroup X g"
  shows "length (encodePart X g) = 7 \<and> list_all crockfordUpper (encodePart X g)"
  using assms
  by (auto simp add: encodesGroup_def encodePart_def Let_def toUpperCase_def padStart_def
      list_all_iff crockfordAnyCase_def crockfordUpper_def upper_char_zero crockfordAlphabet_def)

lemma keyShape_plain:
  assumes "length a = 7" "length b = 7" "length c = 7" "length d = 7"
    "list_all P a" "list_all P b" "list_all P c" "list_all P d"
  shows "keyShape P (a @ b @ c @ d)"
  using assms by (simp add: keyShape_def)

lemma keyShape_hyphens:
  assumes "length a = 7" "length b = 7" "length c = 7" "length d = 7"
    "list_all P a" "list_all P b" "list_all P c" "list_all P d"
  shows "keyShape P (a @ ''-'' @ b @ ''-'' @ c @ ''-'' @ d)"
  using assms by (simp add: keyShape_def slice_str_def nth_append)

lemma Key_encode_value:
  assumes len: "length u = 36" and enc: "\<forall>g\<in>set (uuidGroups u). encodesGroup X g"
  shows "Key_encode X u h =
         Inr (MkKey (join_str (if h then ''-'' else '''') (map (encodePart X) (uuidGroups u))))"
proof -
  define a where "a = encodePart X (slice_str 0 8 u)"
  define b where "b = encodePart X (slice_str 9 13 u @ slice_str 14 18 u)"
  define c where "c = encodePart X (slice_str 19 23 u @ slice_str 24 28 u)"
  define d where "d = encodePart X (slice_str 28 36 u)"
  have sa: "length a = 7 \<and> list_all crockfordUpper a"
    unfolding a_def using enc by (intro encodePart_shape) (simp add: uuidGroups_def)
  have sb: "length b = 7 \<and> list_all crockfordUpper b"
    unfolding b_def using enc by (intro encodePart_shape) (simp add: uuidGroups_def)
  have sc: "length c = 7 \<and> list_all crockfordUpper c"
    unfolding c_def using enc by (intro encodePart_shape) (simp add: uuidGroups_def)
  have sd: "length d = 7 \<and> list_all crockfordUpper d"
    unfolding d_def using enc by (intro encodePart_shape) (simp add: uuidGroups_def)
  have v1: "isValid (a @ b @ c @ d)"
    unfolding isValid_keyShape using sa sb sc sd by (intro keyShape_plain) simp_all
  have v2: "isValid (a @ ''-'' @ b @ ''-'' @ c @ ''-'' @ d)"
    unfolding isValid_keyShape using sa sb sc sd by (intro keyShape_hyphens) simp_all
  have m: "map (encodePart X) (uuidGroups u) = [a, b, c, d]"
    by (simp add: uuidGroups_def a_def b_def c_def d_def)
  have e: "Key_encode X u h = Key_new (join_str (if h then ''-'' else '''') [a, b, c, d])"
    using len by (simp add: Key_encode_def UUID_LENGTH_def Let_def a_def b_def c_def d_def)
  show ?thesis
    unfolding e m using v1 v2 by (simp add: Key_new_def)
qed

lemma codes_97_102: "map char_of [97..<103::nat] = ''abcdef''"
  by (simp add: upt_rec char_of_def bit_0)

lemma codes_65_70: "map char_of [65..<71::nat] = ''ABCDEF''"
  by (simp add: upt_rec char_of_def bit_0)

lemma isHexDigit_cases:
  assumes "isHexDigit c"
  shows "c \<in> set ''0123456789abcdefABCDEF''"
proof -
  from assms have "48 \<le> charCodeAt0 c \<and> charCodeAt0 c < 58 \<or>
      97 \<le> charCodeAt0 c \<and> charCodeAt0 c < 103 \<or> 65 \<le> charCodeAt0 c \<and> charCodeAt0 c < 71"
    by (auto simp: isHexDigit_def hexDigitValue_def Let_def split: if_splits)
  then have "c \<in> set ''0123456789'' \<or> c \<in> set ''abcdef'' \<or> c \<in> set ''ABCDEF''"
    using code_in_range [of 48 c 58] code_in_range [of 97 c 103] code_in_range [of 65 c 71]
    unfolding codes_48_57 codes_97_102 codes_65_70 by blast
  then show ?thesis by auto
qed

lemma hexDigit_table:
  "list_all (\<lambda>c. case hexDigitValue c of None \<Rightarrow> False
                   | Some x \<Rightarrow> x < 16 \<and> hexChar x = lower_char c) ''0123456789abcdefABCDEF''"
  by code_simp

lemma hexDigit_roundtrip:
  assumes "isHexDigit c"
  shows "\<exists>x. hexDigitValue c = Some x \<and> x < 16 \<and> hexChar x = lower_char c"
  using isHexDigit_cases [OF assms] hexDigit_table
  unfolding list_all_iff by (fastforce split: option.splits)

lemma byte_of_digits:
  assumes "x < 16" "y < 16"
  shows "unat (of_nat (16 * x + y) :: byte) div 16 = x \<and> unat (of_nat (16 * x + y) :: byte) mod 16 = y"
proof -
  have "16 * x + y < 256" using assms by simp
  then have "unat (of_nat (16 * x + y) :: byte) = 16 * x + y"
    by (simp only: unat_of_nat) simp
  with assms show ?thesis by simp
qed

lemma hex_roundtrip:
  assumes "list_all isHexDigit g" "even (length g)"
  shows "bufferToHex (bufferFromHex g) = toLowerCase g"
  using assms
proof (induction g rule: bufferFromHex.induct)
  case (1 a b rest)
  from 1(2) have ha: "isHexDigit a" and hb: "isHexDigit b" and hr: "list_all isHexDigit rest"
    by simp_all
  from hexDigit_roundtrip [OF ha] obtain x where x: "hexDigitValue a = Some x" "x < 16" "hexChar x = lower_char a"
    by blast
  from hexDigit_roundtrip [OF hb] obtain y where y: "hexDigitValue b = Some y" "y < 16" "hexChar y = lower_char b"
    by blast
  have ih: "bufferToHex (bufferFromHex rest) = toLowerCase rest"
    using 1(1) [OF _ x(1) y(1)] hr 1(3) by simp
  show ?case
    using x y ih byte_of_digits [OF x(2) y(2)] by (simp add: toLowerCase_def)
qed (simp_all add: toLowerCase_def)

lemma getParts_plain:
  assumes "length a = 7" "length b = 7" "length c = 7" "length d = 7"
  shows "getParts (MkKey (a @ b @ c @ d)) = [a, b, c, d]"
  using assms by (simp add: getParts_def KEY_LENGTH_WITH_HYPHENS_def slice_str_def)

lemma getParts_hyphens:
  assumes "length a = 7" "length b = 7" "length c = 7" "length d = 7"
  shows "getParts (MkKey (a @ ''-'' @ b @ ''-'' @ c @ ''-'' @ d)) = [a, b, c, d]"
  using assms by (simp add: getParts_def KEY_LENGTH_WITH_HYPHENS_def slice_str_def)

lemma uuid_split:
  assumes "length u = 36"
  shows "u = take 8 u @ u ! 8 # take 4 (drop 9 u) @ u ! 13 # take 4 (drop 14 u) @ u ! 18 #
             take 4 (drop 19 u) @ u ! 23 # drop 24 u"
proof -
  have 1: "u = take 8 u @ drop 8 u" by simp
  have 2: "drop 8 u = u ! 8 # drop 9 u"
    using Cons_nth_drop_Suc [of 8 u] assms by simp
  have 3: "drop 9 u = take 4 (drop 9 u) @ drop 13 u"
    using append_take_drop_id [of 4 "drop 9 u"] by simp
  have 4: "drop 13 u = u ! 13 # drop 14 u"
    using Cons_nth_drop_Suc [of 13 u] assms by simp
  have 5: "drop 14 u = take 4 (drop 14 u) @ drop 18 u"
    using append_take_drop_id [of 4 "drop 14 u"] by simp
  have 6: "drop 18 u = u ! 18 # drop 19 u"
    using Cons_nth_drop_Suc [of 18 u] assms by simp
  have 7: "drop 19 u = take 4 (drop 19 u) @ drop 23 u"
    using append_take_drop_id [of 4 "drop 19 u"] by simp
  have 8: "drop 23 u = u ! 23 # drop 24 u"
    using Cons_nth_drop_Suc [of 23 u] assms by simp
  show ?thesis
    by (metis 1 2 3 4 5 6 7 8)
qed

lemma decode_encodePart:
  assumes "decodesGroup X g"
  shows "c32decode X (toLowerCase (encodePart X g)) = bufferToHex (bufferFromHex g)"
  using assms by (simp add: decodesGroup_def encodePart_def Let_def toLowerCase_toUpperCase)

lemma validUUID_split:
  assumes "validUUID u"
  obtains A B C D E where
    "u = A @ CHR ''-'' # B @ CHR ''-'' # C @ CHR ''-'' # D @ CHR ''-'' # E"
    "length A = 8" "length B = 4" "length C = 4" "length D = 4" "length E = 12"
    "list_all isHexDigit A" "list_all isHexDigit B" "list_all isHexDigit C"
    "list_all isHexDigit D" "list_all isHexDigit E"
proof -
  from assms have len: "length u = 36" by (simp add: validUUID_def)
  show thesis
  proof (rule that [of "take 8 u" "take 4 (drop 9 u)" "take 4 (drop 14 u)" "take 4 (drop 19 u)"
        "drop 24 u"])
    show "u = take 8 u @ CHR ''-'' # take 4 (drop 9 u) @ CHR ''-'' # take 4 (drop 14 u) @
              CHR ''-'' # take 4 (drop 19 u) @ CHR ''-'' # drop 24 u"
      using uuid_split [OF len] assms by (simp add: validUUID_def)
  qed (use assms len in \<open>auto simp add: validUUID_def slice_str_def\<close>)
qed

lemma uuidGroups_split:
  assumes "length A = 8" "length B = 4" "length C = 4" "length D = 4" "length E = 12"
  shows "uuidGroups (A @ CHR ''-'' # B @ CHR ''-'' # C @ CHR ''-'' # D @ CHR ''-'' # E) =
         [A, B @ C, D @ take 4 E, drop 4 E]"
  using assms by (simp add: uuidGroups_def slice_str_def)

lemma lower_char_hyphen: "lower_char CHR ''-'' = CHR ''-''"
  by (simp add: lower_char_def asciiLower_def asciiUpper_def)

text \<open>
  What holds of \<open>Key.encode\<close> and \<open>toUUID\<close> whatever the codec: for a valid UUID
  string \<open>u\<close>, if each of the four groups of \<open>u\<close> is encoded into at most 7
  Crockford symbols and decoding the zero-padded symbols gives the group's hexadecimal
  text back, then \<open>toUUID()\<close> of \<open>Key.encode(u, h)\<close> is \<open>u\<close> in lowercase. The
  slicing and the joining of the groups are right; the round trip stands or falls with
  the decoder on a group that was padded with \<open>0\<close>.
\<close>

lemma roundtrip_under_contract:
  assumes v: "validUUID u"
    and c: "\<forall>g\<in>set (uuidGroups u). encodesGroup X g \<and> decodesGroup X g"
  shows "\<exists>k. Key_encode X u h = Inr k \<and> toUUID X k = Inr (toLowerCase u)"
proof -
  from v obtain A B C D E where
    u: "u = A @ CHR ''-'' # B @ CHR ''-'' # C @ CHR ''-'' # D @ CHR ''-'' # E"
    and l: "length A = 8" "length B = 4" "length C = 4" "length D = 4" "length E = 12"
    and x: "list_all isHexDigit A" "list_all isHexDigit B" "list_all isHexDigit C"
      "list_all isHexDigit D" "list_all isHexDigit E"
    by (rule validUUID_split)
  have len: "length u = 36" using v by (simp add: validUUID_def)
  have g: "uuidGroups u = [A, B @ C, D @ take 4 E, drop 4 E]"
    unfolding u using l by (rule uuidGroups_split)
  define a where "a = encodePart X A"
  define b where "b = encodePart X (B @ C)"
  define c' where "c' = encodePart X (D @ take 4 E)"
  define d where "d = encodePart X (drop 4 E)"
  have enc: "\<forall>g\<in>set (uuidGroups u). encodesGroup X g" using c by blast
  have s: "length a = 7" "length b = 7" "length c' = 7" "length d = 7"
    using enc encodePart_shape [of X] unfolding g a_def b_def c'_def d_def by simp_all
  have xE: "list_all isHexDigit (take 4 E)" "list_all isHexDigit (drop 4 E)"
    using x(5) list_all_take_drop [of isHexDigit E 4] by simp_all
  have h: "bufferToHex (bufferFromHex A) = toLowerCase A"
    "bufferToHex (bufferFromHex (B @ C)) = toLowerCase (B @ C)"
    "bufferToHex (bufferFromHex (D @ take 4 E)) = toLowerCase (D @ take 4 E)"
    "bufferToHex (bufferFromHex (drop 4 E)) = toLowerCase (drop 4 E)"
    using x xE l by (simp_all add: hex_roundtrip)
  have dec: "c32decode X (toLowerCase a) = toLowerCase A"
    "c32decode X (toLowerCase b) = toLowerCase (B @ C)"
    "c32decode X (toLowerCase c') = toLowerCase (D @ take 4 E)"
    "c32decode X (toLowerCase d) = toLowerCase (drop 4 E)"
    using c decode_encodePart [of X] h unfolding g a_def b_def c'_def d_def by simp_all
  have lowE: "toLowerCase E = toLowerCase (take 4 E) @ toLowerCase (drop 4 E)"
    by (simp add: toLowerCase_def flip: map_append)
  have low: "toLowerCase u =
      toLowerCase A @ ''-'' @ toLowerCase B @ ''-'' @ toLowerCase C @ ''-'' @ toLowerCase D @
      ''-'' @ toLowerCase (take 4 E) @ toLowerCase (drop 4 E)"
    unfolding u using lowE by (simp add: toLowerCase_def lower_char_hyphen)
  define k where "k = MkKey (join_str (if h then ''-'' else '''') [a, b, c', d])"
  have ke: "Key_encode X u h = Inr k"
    using Key_encode_value [OF len enc, of h] unfolding g k_def a_def b_def c'_def d_def by simp
  have valid: "isValid (Key_toString k)"
    using ke len by (auto simp: Key_encode_def Key_new_def Let_def UUID_LENGTH_def split: if_splits)
  have parts: "getParts k = [a, b, c', d]"
    unfolding k_def using s getParts_plain [of a b c' d] getParts_hyphens [of a b c' d]
    by (cases h) simp_all
  have "decode X k = toLowerCase u"
    unfolding low using l
    by (simp add: decode_def parts dec Let_def) (simp add: toLowerCase_def)
  with ke valid show ?thesis by (simp add: toUUID_def)
qed

text \<open>
  C6. For a valid UUID string \<open>u\<close>, \<open>Key.encode(u, false)\<close> returns a key of exactly
  28 uppercase Crockford characters, and \<open>Key.encode(u, true)\<close> a key of exactly 31
  characters with hyphens at indices 7, 15 and 23 and four segments of uppercase Crockford
  characters, for every codec that encodes each of the four groups of \<open>u\<close> into at most
  7 Crockford symbols.
\<close>

theorem Key_encode_fixed_width:
  assumes v: "validUUID u"
    and enc: "\<forall>g\<in>set (uuidGroups u). encodesGroup X g"
  shows "\<exists>k28 k31.
           Key_encode X u False = Inr k28 \<and> length (Key_toString k28) = 28 \<and>
           list_all crockfordUpper (Key_toString k28) \<and>
           Key_encode X u True = Inr k31 \<and> length (Key_toString k31) = 31 \<and>
           Key_toString k31 ! 7 = CHR ''-'' \<and> Key_toString k31 ! 15 = CHR ''-'' \<and>
           Key_toString k31 ! 23 = CHR ''-'' \<and>
           list_all crockfordUpper (slice_str 0 7 (Key_toString k31)) \<and>
           list_all crockfordUpper (slice_str 8 15 (Key_toString k31)) \<and>
           list_all crockfordUpper (slice_str 16 23 (Key_toString k31)) \<and>
           list_all crockfordUpper (slice_str 24 31 (Key_toString k31))"
proof -
  have len: "length u = 36" using v by (simp add: validUUID_def)
  define a where "a = encodePart X (slice_str 0 8 u)"
  define b where "b = encodePart X (slice_str 9 13 u @ slice_str 14 18 u)"
  define c where "c = encodePart X (slice_str 19 23 u @ slice_str 24 28 u)"
  define d where "d = encodePart X (slice_str 28 36 u)"
  have sa: "length a = 7" "list_all crockfordUpper a"
    unfolding a_def using enc encodePart_shape [of X] by (simp_all add: uuidGroups_def)
  have sb: "length b = 7" "list_all crockfordUpper b"
    unfolding b_def using enc encodePart_shape [of X] by (simp_all add: uuidGroups_def)
  have sc: "length c = 7" "list_all crockfordUpper c"
    unfolding c_def using enc encodePart_shape [of X] by (simp_all add: uuidGroups_def)
  have sd: "length d = 7" "list_all crockfordUpper d"
    unfolding d_def using enc encodePart_shape [of X] by (simp_all add: uuidGroups_def)
  have m: "map (encodePart X) (uuidGroups u) = [a, b, c, d]"
    by (simp add: uuidGroups_def a_def b_def c_def d_def)
  have k28: "Key_encode X u False = Inr (MkKey (a @ b @ c @ d))"
    using Key_encode_value [OF len enc, of False] unfolding m by simp
  have k31: "Key_encode X u True = Inr (MkKey (a @ ''-'' @ b @ ''-'' @ c @ ''-'' @ d))"
    using Key_encode_value [OF len enc, of True] unfolding m by simp
  show ?thesis
    unfolding k28 k31 using sa sb sc sd by (simp add: slice_str_def nth_append)
qed

section \<open>Checksum\<close>

lemma hexChar_table:
  "list_all (\<lambda>n. hexChar n \<in> set ''0123456789abcdef'' \<and>
                 upper_char (hexChar n) \<in> set ''0123456789ABCDEF'' \<and>
                 hexDigitValue (hexChar n) = Some n \<and>
                 hexDigitValue (upper_char (hexChar n)) = Some n) [0..<16]"
  by code_simp

lemma hexChar_facts:
  assumes "n < 16"
  shows "upper_char (hexChar n) \<in> set ''0123456789ABCDEF''"
    and "hexDigitValue (hexChar n) = Some n"
    and "hexDigitValue (upper_char (hexChar n)) = Some n"
  using assms hexChar_table unfolding list_all_iff by auto

lemma toString16_length:
  assumes "0 \<le> n" "n < 16 ^ Suc k"
  shows "length (toString16 n) \<le> Suc k"
  using assms
proof (induction k arbitrary: n)
  case 0
  then show ?case by (simp add: toString16.simps)
next
  case (Suc k)
  show ?case
  proof (cases "n < 16")
    case True
    then show ?thesis by (simp add: toString16.simps)
  next
    case False
    have "n < 16 * 16 ^ Suc k" using Suc.prems by simp
    then have "n div 16 < 16 ^ Suc k" by arith
    moreover have "0 \<le> n div 16" using Suc.prems by simp
    ultimately have "length (toString16 (n div 16)) \<le> Suc k" by (rule Suc.IH[rotated])
    with False show ?thesis by (subst toString16.simps) simp
  qed
qed

lemma toString16_upper_hex:
  assumes "0 \<le> n"
  shows "list_all (\<lambda>c. c \<in> set ''0123456789ABCDEF'') (toUpperCase (toString16 n))"
  using assms
proof (induction n rule: toString16.induct)
  case (1 n)
  show ?case
  proof (cases "n < 16")
    case True
    with 1(2) have "nat n < 16" by simp
    from hexChar_facts(1) [OF this] True show ?thesis
      by (subst toString16.simps) (simp add: toUpperCase_def)
  next
    case False
    have m: "nat (n mod 16) < 16" by simp
    have "0 \<le> n div 16" using 1(2) by simp
    with 1(1) False have "list_all (\<lambda>c. c \<in> set ''0123456789ABCDEF'') (toUpperCase (toString16 (n div 16)))"
      by simp
    with hexChar_facts(1) [OF m] False show ?thesis
      by (subst toString16.simps) (simp add: toUpperCase_def)
  qed
qed

lemma hexValue_snoc:
  "hexValue (s @ [c]) = 16 * hexValue s + (case hexDigitValue c of Some d \<Rightarrow> int d | None \<Rightarrow> 0)"
  by (simp add: hexValue_def)

lemma hexValue_upper_toString16:
  assumes "0 \<le> n"
  shows "hexValue (toUpperCase (toString16 n)) = n"
  using assms
proof (induction n rule: toString16.induct)
  case (1 n)
  show ?case
  proof (cases "n < 16")
    case True
    with 1(2) have "nat n < 16" by simp
    from hexChar_facts(3) [OF this] True 1(2) show ?thesis
      by (subst toString16.simps) (simp add: toUpperCase_def hexValue_def)
  next
    case False
    have m: "nat (n mod 16) < 16" by simp
    have "0 \<le> n div 16" using 1(2) by simp
    with 1(1) False have ih: "hexValue (toUpperCase (toString16 (n div 16))) = n div 16"
      by simp
    have "toUpperCase (toString16 n) =
          toUpperCase (toString16 (n div 16)) @ [upper_char (hexChar (nat (n mod 16)))]"
      using False by (subst toString16.simps) (simp add: toUpperCase_def)
    then show ?thesis
      using ih hexChar_facts(3) [OF m] by (simp add: hexValue_snoc)
  qed
qed

lemma hexValue_zeros: "hexValue (replicate k CHR ''0'' @ s) = hexValue s"
proof -
  have z: "foldl (\<lambda>a c. 16 * a + (case hexDigitValue c of Some d \<Rightarrow> int d | None \<Rightarrow> 0)) 0
             (replicate k CHR ''0'') = 0"
    by (induction k) (simp_all add: hexDigitValue_def charCodeAt0_def)
  show ?thesis by (simp add: hexValue_def z)
qed

lemma uint32_bound: "uint (w :: 32 word) < 16 ^ Suc 7"
  using uint_bounded [of w] by simp

lemma calculateChecksum_hex8: "matchesHex8 (calculateChecksum X a)"
proof -
  define n where "n = uint (crc32 X (utf8 (prefix a @ ''_'' @ Key_toString (key a) @ entropy a)))"
  have n0: "0 \<le> n" by (simp add: n_def)
  have len: "length (toString16 n) \<le> 8"
    using toString16_length [OF n0, of 7] uint32_bound by (simp add: n_def)
  have up: "list_all (\<lambda>c. c \<in> set ''0123456789ABCDEF'') (toUpperCase (toString16 n))"
    using n0 by (rule toString16_upper_hex)
  have c: "calculateChecksum X a = padStart 8 CHR ''0'' (toUpperCase (toString16 n))"
    by (simp add: calculateChecksum_def n_def Let_def)
  show ?thesis
    unfolding c using len up
    by (auto simp add: matchesHex8_def padStart_def toUpperCase_def list_all_iff)
qed

text \<open>
  C3. \<open>calculateChecksum\<close> is the CRC32 of the UTF-8 bytes of
  \<open>prefix + "_" + key.toString() + entropy\<close>, with nothing between key and entropy,
  written in hexadecimal, in uppercase, zero-padded on the left: exactly 8 characters
  from \<open>0-9A-F\<close>, which read as a hexadecimal number are the CRC32 value.
\<close>

theorem calculateChecksum_crc32_hex:
  "calculateChecksum X a =
     padStart 8 CHR ''0''
       (toUpperCase (toString16
          (uint (crc32 X (utf8 (prefix a @ ''_'' @ Key_toString (key a) @ entropy a)))))) \<and>
   length (calculateChecksum X a) = 8 \<and>
   list_all (\<lambda>c. c \<in> set ''0123456789ABCDEF'') (calculateChecksum X a) \<and>
   hexValue (calculateChecksum X a) =
     uint (crc32 X (utf8 (prefix a @ ''_'' @ Key_toString (key a) @ entropy a)))"
proof -
  have v: "hexValue (calculateChecksum X a) =
           uint (crc32 X (utf8 (prefix a @ ''_'' @ Key_toString (key a) @ entropy a)))"
    by (simp add: calculateChecksum_def Let_def padStart_def hexValue_zeros
        hexValue_upper_toString16)
  show ?thesis
    using calculateChecksum_hex8 [of X a] v
    by (simp add: matchesHex8_def) (simp add: calculateChecksum_def Let_def)
qed

section \<open>The APIKey constructor\<close>

text \<open>
  C9. The public constructor never validates a supplied checksum: a non-empty checksum
  string is stored as it is, for every prefix, key and entropy, whether or not it is the
  checksum of the other fields; the checksum is computed by \<open>calculateChecksum\<close> only
  when the supplied string is empty (the one falsy string).
\<close>

theorem APIKey_new_stores_checksum:
  "(c \<noteq> [] \<longrightarrow>
      APIKey_new X p k e c = \<lparr>prefix = p, key = k, entropy = e, checksum = c\<rparr>) \<and>
   APIKey_new X p k e [] =
     \<lparr>prefix = p, key = k, entropy = e,
      checksum = calculateChecksum X \<lparr>prefix = p, key = k, entropy = e, checksum = []\<rparr>\<rparr>"
  by (simp add: APIKey_new_def Let_def)

section \<open>Parsing a compound key\<close>

lemma split_str_nonempty: "split_str d s \<noteq> []"
  by (induction s) (auto split: list.splits)

lemma length_split_str: "length (split_str d s) = Suc (count_list s d)"
  by (induction s) (auto split: list.splits simp: split_str_nonempty)

lemma split_str_no_separator: "d \<notin> set p \<Longrightarrow> split_str d p = [p]"
  by (induction p) auto

lemma split_str_append: "d \<notin> set p \<Longrightarrow> split_str d (p @ d # rest) = p # split_str d rest"
  by (induction p) auto

lemma split_str_three:
  assumes "d \<notin> set p" "d \<notin> set r" "d \<notin> set c"
  shows "split_str d (p @ d # r @ d # c) = [p, r, c]"
  using assms by (simp add: split_str_append split_str_no_separator)

lemma isValidChecksum_iff:
  "isValidChecksum c \<longleftrightarrow> length c = 8 \<and> list_all (\<lambda>x. x \<in> set ''0123456789ABCDEF'') c"
  by (auto simp add: isValidChecksum_def matchesHex8_def CHECKSUM_LENGTH_def)

lemma calculateChecksum_fields:
  "calculateChecksum X \<lparr>prefix = p, key = k, entropy = e, checksum = c\<rparr> =
   calculateChecksum X \<lparr>prefix = p, key = k, entropy = e, checksum = c'\<rparr>"
  by (simp add: calculateChecksum_def)

lemma parse_three_parts:
  assumes "CHR ''_'' \<notin> set p" "CHR ''_'' \<notin> set r" "CHR ''_'' \<notin> set c"
  shows "parse X (p @ ''_'' @ r @ ''_'' @ c) =
       (if p = [] then Inl InvalidPrefixEmpty
        else if length r < 28 then Inl InsufficientLength
        else if \<not> (length c = 8 \<and> list_all (\<lambda>x. x \<in> set ''0123456789ABCDEF'') c)
          then Inl InvalidChecksumFormat
        else if \<not> isValid (take 28 r) then Inl InvalidUUIDKey
        else let a = \<lparr>prefix = p, key = MkKey (take 28 r), entropy = drop 28 r, checksum = c\<rparr>
             in if c \<noteq> calculateChecksum X a
                then Inl (InvalidChecksum (calculateChecksum X a) c)
                else Inr a)"
proof -
  have sp: "split_str CHR ''_'' (p @ ''_'' @ r @ ''_'' @ c) = [p, r, c]"
    using split_str_three [OF assms] by simp
  have ne: "p @ ''_'' @ r @ ''_'' @ c \<noteq> []" by simp
  have c8: "length c = 8 \<Longrightarrow> c \<noteq> []" by auto
  show ?thesis
    unfolding parse_def sp Let_def using ne c8
    by (auto simp add: isValidChecksum_iff KEY_LENGTH_WITHOUT_HYPHENS_def slice_str_def
        Key_parse_def Key_new_def APIKey_new_def Let_def calculateChecksum_fields [of X p _ _ c "[]"])
qed

text \<open>
  C4. \<open>parse\<close> validates in a fixed order and fails with the first error that
  applies: the empty string; then any number of parts other than 3 (one part more than
  there are underscores), with that number in the error; then, for a string of three
  parts, an empty prefix, a second part shorter than 28 characters, a third part that is
  not 8 characters from \<open>0-9A-F\<close>, first 28 characters of the second part that are
  not a valid key (the error of \<open>Key.parse\<close>), a checksum that differs from the one
  recomputed from prefix, key and entropy (the error names the expected and the actual
  one); otherwise it returns the parsed APIKey.
\<close>

theorem parse_validation_order:
  "parse X [] = Inl InvalidAPIKeyFormat \<and>
   (s \<noteq> [] \<and> count_list s CHR ''_'' \<noteq> 2 \<longrightarrow>
      parse X s = Inl (ExpectedThreeParts (Suc (count_list s CHR ''_'')))) \<and>
   (CHR ''_'' \<notin> set p \<and> CHR ''_'' \<notin> set r \<and> CHR ''_'' \<notin> set c \<longrightarrow>
      parse X (p @ ''_'' @ r @ ''_'' @ c) =
       (if p = [] then Inl InvalidPrefixEmpty
        else if length r < 28 then Inl InsufficientLength
        else if \<not> (length c = 8 \<and> list_all (\<lambda>x. x \<in> set ''0123456789ABCDEF'') c)
          then Inl InvalidChecksumFormat
        else if \<not> isValid (take 28 r) then Inl InvalidUUIDKey
        else let a = \<lparr>prefix = p, key = MkKey (take 28 r), entropy = drop 28 r, checksum = c\<rparr>
             in if c \<noteq> calculateChecksum X a
                then Inl (InvalidChecksum (calculateChecksum X a) c)
                else Inr a))"
proof (intro conjI impI)
  show "parse X [] = Inl InvalidAPIKeyFormat"
    by (simp add: parse_def)
next
  assume "s \<noteq> [] \<and> count_list s CHR ''_'' \<noteq> 2"
  then show "parse X s = Inl (ExpectedThreeParts (Suc (count_list s CHR ''_'')))"
    by (simp add: parse_def Let_def length_split_str)
next
  assume "CHR ''_'' \<notin> set p \<and> CHR ''_'' \<notin> set r \<and> CHR ''_'' \<notin> set c"
  then show "parse X (p @ ''_'' @ r @ ''_'' @ c) =
       (if p = [] then Inl InvalidPrefixEmpty
        else if length r < 28 then Inl InsufficientLength
        else if \<not> (length c = 8 \<and> list_all (\<lambda>x. x \<in> set ''0123456789ABCDEF'') c)
          then Inl InvalidChecksumFormat
        else if \<not> isValid (take 28 r) then Inl InvalidUUIDKey
        else let a = \<lparr>prefix = p, key = MkKey (take 28 r), entropy = drop 28 r, checksum = c\<rparr>
             in if c \<noteq> calculateChecksum X a
                then Inl (InvalidChecksum (calculateChecksum X a) c)
                else Inr a)"
    by (intro parse_three_parts) simp_all
qed

section \<open>Lemmas on fresh keys\<close>

lemma underscore_not_crockford: "crockfordUpper x \<Longrightarrow> x \<noteq> CHR ''_''"
  by (auto simp: crockfordUpper_def crockfordAlphabet_def)

lemma underscore_not_hex: "x \<in> set ''0123456789ABCDEF'' \<Longrightarrow> x \<noteq> CHR ''_''"
  by auto

lemma no_underscore_checksum: "CHR ''_'' \<notin> set (calculateChecksum X a)"
  using calculateChecksum_hex8 [of X a] underscore_not_hex
  unfolding matchesHex8_def list_all_iff by blast

lemma count_list_pos: "x \<in> set xs \<Longrightarrow> 0 < count_list xs x"
  by (induction xs) auto

lemma newAPIKey_value:
  assumes "p \<noteq> []" "length u = 36" "\<forall>g\<in>set (uuidGroups u). encodesGroup X g"
  shows "newAPIKey X p u opt =
         Inr (APIKey_new X p (MkKey (join_str [] (map (encodePart X) (uuidGroups u))))
               (generateEntropy X (entropySize (applyOptions opt))) [])"
  using assms Key_encode_value [OF assms(2,3), of False]
  by (simp add: newAPIKey_def Let_def)

text \<open>
  C10. \<open>newAPIKey\<close> checks that the prefix is non-empty and not that it is free of
  underscores: for a non-empty prefix with an underscore and a valid UUID it succeeds
  (for an encoder that encodes each group of the UUID into at most 7 Crockford symbols),
  and \<open>parse\<close> of the resulting string fails with the wrong-part-count error, the
  count being at least 4.
\<close>

theorem underscore_prefix_not_reparseable:
  assumes "p \<noteq> []" and "CHR ''_'' \<in> set p" and "validUUID u"
    and "\<forall>g\<in>set (uuidGroups u). encodesGroup X g"
  shows "\<exists>a n. newAPIKey X p u opt = Inr a \<and> prefix a = p \<and> 3 < n \<and>
               parse X (APIKey_toString a) = Inl (ExpectedThreeParts n)"
proof -
  have len: "length u = 36" using assms(3) by (simp add: validUUID_def)
  define a where "a = APIKey_new X p (MkKey (join_str [] (map (encodePart X) (uuidGroups u))))
               (generateEntropy X (entropySize (applyOptions opt))) []"
  have n: "newAPIKey X p u opt = Inr a"
    unfolding a_def using assms(1) len assms(4) by (rule newAPIKey_value)
  have pa: "prefix a = p" by (simp add: a_def APIKey_new_def Let_def)
  have "0 < count_list p CHR ''_''" using assms(2) by (rule count_list_pos)
  then have cnt: "2 < count_list (APIKey_toString a) CHR ''_''"
    by (simp add: APIKey_toString_def pa)
  have ne: "APIKey_toString a \<noteq> []" by (simp add: APIKey_toString_def)
  have "parse X (APIKey_toString a) =
        Inl (ExpectedThreeParts (Suc (count_list (APIKey_toString a) CHR ''_'')))"
    using ne cnt by (simp add: parse_def Let_def length_split_str)
  with n pa cnt show ?thesis by (intro exI [of _ a] exI [of _ "Suc (count_list (APIKey_toString a) CHR ''_'')"]) simp
qed

lemma no_underscore_entropy:
  assumes "list_all crockfordAnyCase (c32encode X (entropyDigestHex X sz))"
  shows "CHR ''_'' \<notin> set (generateEntropy X sz)"
proof -
  have "list_all crockfordUpper (toUpperCase (c32encode X (entropyDigestHex X sz)))"
    using assms by (simp add: list_all_iff toUpperCase_def crockfordAnyCase_def crockfordUpper_def)
  then have "list_all crockfordUpper (generateEntropy X sz)"
    by (auto simp add: generateEntropy_def Let_def slice_str_def encodeBase32Crockford_def
        entropyDigestHex_def list_all_iff dest: in_set_takeD)
  then show ?thesis
    using underscore_not_crockford unfolding list_all_iff by blast
qed

text \<open>
  C5. A freshly constructed APIKey serializes and reparses to itself, hence to the same
  string: for a non-empty prefix without underscore, a 36-character UUID string that
  \<open>Key.encode\<close> accepts (the encoder encodes each of its groups into at most 7
  Crockford symbols) and every entropy option, for an encoder that writes the digest in
  Crockford symbols.
\<close>

theorem fresh_key_reparses:
  assumes "p \<noteq> []" and "CHR ''_'' \<notin> set p" and "length u = 36"
    and "\<forall>g\<in>set (uuidGroups u). encodesGroup X g"
    and "list_all crockfordAnyCase
           (c32encode X (entropyDigestHex X (entropySize (applyOptions opt))))"
  shows "\<exists>a b. newAPIKey X p u opt = Inr a \<and> parse X (APIKey_toString a) = Inr b \<and>
               b = a \<and> APIKey_toString b = APIKey_toString a"
proof -
  define ga where "ga = encodePart X (slice_str 0 8 u)"
  define gb where "gb = encodePart X (slice_str 9 13 u @ slice_str 14 18 u)"
  define gc where "gc = encodePart X (slice_str 19 23 u @ slice_str 24 28 u)"
  define gd where "gd = encodePart X (slice_str 28 36 u)"
  have sa: "length ga = 7" "list_all crockfordUpper ga"
    unfolding ga_def using assms(4) encodePart_shape [of X] by (simp_all add: uuidGroups_def)
  have sb: "length gb = 7" "list_all crockfordUpper gb"
    unfolding gb_def using assms(4) encodePart_shape [of X] by (simp_all add: uuidGroups_def)
  have sc: "length gc = 7" "list_all crockfordUpper gc"
    unfolding gc_def using assms(4) encodePart_shape [of X] by (simp_all add: uuidGroups_def)
  have sd: "length gd = 7" "list_all crockfordUpper gd"
    unfolding gd_def using assms(4) encodePart_shape [of X] by (simp_all add: uuidGroups_def)
  define K where "K = ga @ gb @ gc @ gd"
  have m: "join_str [] (map (encodePart X) (uuidGroups u)) = K"
    by (simp add: uuidGroups_def ga_def gb_def gc_def gd_def K_def)
  have K28: "length K = 28" using sa sb sc sd by (simp add: K_def)
  have Kc: "list_all crockfordUpper K" using sa sb sc sd by (simp add: K_def)
  have Kv: "isValid K"
    unfolding isValid_keyShape K_def using sa sb sc sd by (intro keyShape_plain) simp_all
  have Ku: "CHR ''_'' \<notin> set K"
    using Kc underscore_not_crockford unfolding list_all_iff by blast
  define e where "e = generateEntropy X (entropySize (applyOptions opt))"
  have eu: "CHR ''_'' \<notin> set e"
    unfolding e_def using assms(5) by (rule no_underscore_entropy)
  define cs where "cs = calculateChecksum X \<lparr>prefix = p, key = MkKey K, entropy = e, checksum = []\<rparr>"
  have cu: "CHR ''_'' \<notin> set cs" unfolding cs_def by (rule no_underscore_checksum)
  have cf: "length cs = 8 \<and> list_all (\<lambda>x. x \<in> set ''0123456789ABCDEF'') cs"
    using calculateChecksum_hex8 [of X "\<lparr>prefix = p, key = MkKey K, entropy = e, checksum = []\<rparr>"]
    by (simp add: cs_def matchesHex8_def)
  define a where "a = \<lparr>prefix = p, key = MkKey K, entropy = e, checksum = cs\<rparr>"
  have n: "newAPIKey X p u opt = Inr a"
    using newAPIKey_value [OF assms(1,3,4), of opt]
    by (simp add: m a_def e_def cs_def APIKey_new_def Let_def)
  have ts: "APIKey_toString a = p @ ''_'' @ (K @ e) @ ''_'' @ cs"
    by (simp add: APIKey_toString_def a_def)
  have re: "calculateChecksum X a = cs"
    unfolding a_def cs_def by (rule calculateChecksum_fields)
  have "parse X (p @ ''_'' @ (K @ e) @ ''_'' @ cs) = Inr a"
    using assms(1) K28 cf Kv re
    by (subst parse_three_parts) (use assms(2) Ku eu cu in \<open>simp_all add: a_def\<close>)
  with n ts show ?thesis by auto
qed

section \<open>The reference codec keeps the contract\<close>

lemma lowerHex_table:
  "list_all (\<lambda>c. case hexDigitValue c of None \<Rightarrow> False
                   | Some d \<Rightarrow> d < 16 \<and> hexChar d = c) ''0123456789abcdef''"
  by code_simp

lemma lowerHex_digit:
  assumes "c \<in> set ''0123456789abcdef''"
  obtains d where "hexDigitValue c = Some d" "d < 16" "hexChar d = c"
  using assms lowerHex_table unfolding list_all_iff by (fastforce split: option.splits)

lemma hexValue_bounds:
  assumes "list_all (\<lambda>c. c \<in> set ''0123456789abcdef'') s"
  shows "0 \<le> hexValue s \<and> hexValue s < 16 ^ length s"
  using assms
proof (induction s rule: rev_induct)
  case Nil
  then show ?case by (simp add: hexValue_def)
next
  case (snoc c s)
  then have c: "c \<in> set ''0123456789abcdef''" and s: "list_all (\<lambda>c. c \<in> set ''0123456789abcdef'') s"
    by simp_all
  from c obtain d where d: "hexDigitValue c = Some d" "d < 16" "hexChar d = c"
    by (rule lowerHex_digit)
  from snoc.IH [OF s] have "0 \<le> hexValue s" "hexValue s + 1 \<le> 16 ^ length s" by simp_all
  then have "0 \<le> 16 * hexValue s + int d \<and> 16 * hexValue s + int d < 16 * 16 ^ length s"
    using d(2) by auto
  then show ?case by (simp add: hexValue_snoc d(1))
qed

lemma hexValue_zero:
  assumes "list_all (\<lambda>c. c \<in> set ''0123456789abcdef'') s" "hexValue s = 0"
  shows "\<forall>x\<in>set s. x = CHR ''0''"
  using assms
proof (induction s rule: rev_induct)
  case Nil
  then show ?case by simp
next
  case (snoc c s)
  then have c: "c \<in> set ''0123456789abcdef''" and s: "list_all (\<lambda>c. c \<in> set ''0123456789abcdef'') s"
    by simp_all
  from c obtain d where d: "hexDigitValue c = Some d" "d < 16" "hexChar d = c"
    by (rule lowerHex_digit)
  have nn: "0 \<le> hexValue s" using hexValue_bounds [OF s] by simp
  from snoc.prems(2) have "16 * hexValue s + int d = 0" by (simp add: hexValue_snoc d(1))
  with nn have z: "hexValue s = 0" "d = 0" by auto
  from z(2) d(3) have "c = CHR ''0''" by (simp add: hexChar_def)
  with snoc.IH [OF s z(1)] show ?case
    by simp
qed

lemma toString16_hexValue:
  assumes "list_all (\<lambda>c. c \<in> set ''0123456789abcdef'') s" "s \<noteq> []"
  shows "padStart (length s) CHR ''0'' (toString16 (hexValue s)) = s"
  using assms
proof (induction s rule: rev_induct)
  case Nil
  then show ?case by simp
next
  case (snoc c s)
  then have c: "c \<in> set ''0123456789abcdef''" and s: "list_all (\<lambda>c. c \<in> set ''0123456789abcdef'') s"
    by simp_all
  from c obtain d where d: "hexDigitValue c = Some d" "d < 16" "hexChar d = c"
    by (rule lowerHex_digit)
  have nn: "0 \<le> hexValue s" using hexValue_bounds [OF s] by simp
  have v: "hexValue (s @ [c]) = 16 * hexValue s + int d" by (simp add: hexValue_snoc d(1))
  show ?case
  proof (cases "hexValue s = 0")
    case True
    then have "toString16 (hexValue (s @ [c])) = [c]"
      using d by (subst toString16.simps) (simp add: v)
    moreover have "replicate (length s) CHR ''0'' = s"
      using hexValue_zero [OF s True] by (simp add: replicate_length_same)
    ultimately show ?thesis by (simp add: padStart_def)
  next
    case False
    with nn have pos: "0 < hexValue s" by simp
    then have sne: "s \<noteq> []" by (auto simp: hexValue_def)
    have dv: "(16 * hexValue s + int d) div 16 = hexValue s" "(16 * hexValue s + int d) mod 16 = int d"
      using d(2) by simp_all
    have "toString16 (hexValue (s @ [c])) = toString16 (hexValue s) @ [c]"
      using pos d dv by (subst toString16.simps) (simp add: v)
    moreover have "padStart (length s) CHR ''0'' (toString16 (hexValue s)) = s"
      using snoc.IH [OF s sne] .
    ultimately show ?thesis
      by (simp add: padStart_def)
  qed
qed

lemma c32_table:
  "list_all (\<lambda>k. crockfordAnyCase (crockfordAlphabet ! k) \<and>
                 indexOf (upper_char (lower_char (crockfordAlphabet ! k))) crockfordAlphabet = k)
     [0..<32]"
  by code_simp

lemma c32_symbol:
  assumes "k < 32"
  shows "crockfordAnyCase (crockfordAlphabet ! k)"
    and "indexOf (upper_char (lower_char (crockfordAlphabet ! k))) crockfordAlphabet = k"
  using assms c32_table unfolding list_all_iff by auto

lemma c32Digits_length:
  assumes "0 \<le> n" "n < 32 ^ Suc k"
  shows "length (c32Digits n) \<le> Suc k"
  using assms
proof (induction k arbitrary: n)
  case 0
  then show ?case by (simp add: c32Digits.simps)
next
  case (Suc k)
  show ?case
  proof (cases "n < 32")
    case True
    then show ?thesis by (simp add: c32Digits.simps)
  next
    case False
    have "n < 32 * 32 ^ Suc k" using Suc.prems by simp
    then have "n div 32 < 32 ^ Suc k" by arith
    moreover have "0 \<le> n div 32" using Suc.prems by simp
    ultimately have "length (c32Digits (n div 32)) \<le> Suc k" by (rule Suc.IH[rotated])
    with False show ?thesis by (subst c32Digits.simps) simp
  qed
qed

lemma c32Digits_symbols:
  assumes "0 \<le> n"
  shows "list_all crockfordAnyCase (c32Digits n)"
  using assms
proof (induction n rule: c32Digits.induct)
  case (1 n)
  show ?case
  proof (cases "n < 32")
    case True
    with 1(2) have "nat n < 32" by simp
    from c32_symbol(1) [OF this] True show ?thesis
      by (subst c32Digits.simps) simp
  next
    case False
    have m: "nat (n mod 32) < 32" by simp
    have "0 \<le> n div 32" using 1(2) by simp
    with 1(1) False have "list_all crockfordAnyCase (c32Digits (n div 32))" by simp
    with c32_symbol(1) [OF m] False show ?thesis
      by (subst c32Digits.simps) simp
  qed
qed

lemma c32Value_snoc:
  "c32Value (s @ [c]) = 32 * c32Value s + int (indexOf (upper_char c) crockfordAlphabet)"
  by (simp add: c32Value_def)

lemma c32Value_c32Digits:
  assumes "0 \<le> n"
  shows "c32Value (toLowerCase (c32Digits n)) = n"
  using assms
proof (induction n rule: c32Digits.induct)
  case (1 n)
  show ?case
  proof (cases "n < 32")
    case True
    with 1(2) have "nat n < 32" by simp
    from c32_symbol(2) [OF this] True 1(2) show ?thesis
      by (subst c32Digits.simps) (simp add: toLowerCase_def c32Value_def)
  next
    case False
    have m: "nat (n mod 32) < 32" by simp
    have "0 \<le> n div 32" using 1(2) by simp
    with 1(1) False have ih: "c32Value (toLowerCase (c32Digits (n div 32))) = n div 32"
      by simp
    have "toLowerCase (c32Digits n) =
          toLowerCase (c32Digits (n div 32)) @ [lower_char (crockfordAlphabet ! nat (n mod 32))]"
      using False by (subst c32Digits.simps) (simp add: toLowerCase_def)
    then show ?thesis
      using ih c32_symbol(2) [OF m] by (simp add: c32Value_snoc)
  qed
qed

lemma c32Value_zeros: "c32Value (replicate k CHR ''0'' @ s) = c32Value s"
proof -
  have i: "indexOf (upper_char CHR ''0'') crockfordAlphabet = 0"
    by (simp add: upper_char_zero crockfordAlphabet_def)
  have z: "foldl (\<lambda>a c. 32 * a + int (indexOf (upper_char c) crockfordAlphabet)) 0
             (replicate k CHR ''0'') = 0"
    by (induction k) (simp_all add: i)
  show ?thesis by (simp add: c32Value_def z)
qed

lemma lower_char_zero: "lower_char CHR ''0'' = CHR ''0''"
  by (simp add: lower_char_def asciiLower_def asciiUpper_def)

lemma isHexDigit_lower:
  assumes "isHexDigit c"
  shows "lower_char c \<in> set ''0123456789abcdef''"
proof -
  have "list_all (\<lambda>c. lower_char c \<in> set ''0123456789abcdef'') ''0123456789abcdefABCDEF''"
    by code_simp
  with isHexDigit_cases [OF assms] show ?thesis unfolding list_all_iff by blast
qed

lemma reference_codec_contract:
  assumes hex: "list_all isHexDigit g" and len: "length g = 8"
  shows "encodesGroup reference g \<and> decodesGroup reference g"
proof -
  define h where "h = toLowerCase g"
  have bh: "bufferToHex (bufferFromHex g) = h"
    unfolding h_def using hex len by (simp add: hex_roundtrip)
  have lh: "list_all (\<lambda>c. c \<in> set ''0123456789abcdef'') h"
    using hex isHexDigit_lower by (auto simp add: h_def toLowerCase_def list_all_iff)
  have l8: "length h = 8" by (simp add: h_def toLowerCase_def len)
  define n where "n = hexValue h"
  have n0: "0 \<le> n" and nb: "n < 16 ^ 8"
    using hexValue_bounds [OF lh] by (simp_all add: n_def l8)
  have "n < 32 ^ Suc 6" using nb by simp
  with n0 have d7: "length (c32Digits n) \<le> 7"
    using c32Digits_length [of n 6] by simp
  have ds: "list_all crockfordAnyCase (c32Digits n)" using n0 by (rule c32Digits_symbols)
  have enc: "encodesGroup reference g"
    using d7 ds by (simp add: encodesGroup_def bh reference_def crockford_encode_def n_def)
  have lp: "toLowerCase (padStart 7 CHR ''0'' (c32Digits n)) =
            replicate (7 - length (c32Digits n)) CHR ''0'' @ toLowerCase (c32Digits n)"
    by (simp add: padStart_def toLowerCase_def lower_char_zero)
  have l7: "length (toLowerCase (padStart 7 CHR ''0'' (c32Digits n))) = 7"
    using d7 by (simp add: padStart_def toLowerCase_def)
  have val: "c32Value (toLowerCase (padStart 7 CHR ''0'' (c32Digits n))) = n"
    unfolding lp by (simp add: c32Value_zeros c32Value_c32Digits n0)
  have hne: "h \<noteq> []" using l8 by auto
  have "crockford_decode (toLowerCase (padStart 7 CHR ''0'' (c32Digits n))) =
        padStart 8 CHR ''0'' (toString16 n)"
    unfolding crockford_decode_def l7 val by simp
  also have "\<dots> = h"
    using toString16_hexValue [OF lh hne] by (simp add: l8 n_def)
  finally have "decodesGroup reference g"
    by (simp add: decodesGroup_def bh reference_def crockford_encode_def n_def)
  with enc show ?thesis by (rule conjI)
qed

text \<open>
  With the reference codec the contract holds on the groups of every valid UUID string, and
  every encoding is written in Crockford symbols.
\<close>

lemma reference_contract_valid_uuid:
  assumes "validUUID u"
  shows "\<forall>g\<in>set (uuidGroups u). encodesGroup reference g \<and> decodesGroup reference g"
proof -
  from assms obtain A B C D E where
    u: "u = A @ CHR ''-'' # B @ CHR ''-'' # C @ CHR ''-'' # D @ CHR ''-'' # E"
    and l: "length A = 8" "length B = 4" "length C = 4" "length D = 4" "length E = 12"
    and x: "list_all isHexDigit A" "list_all isHexDigit B" "list_all isHexDigit C"
      "list_all isHexDigit D" "list_all isHexDigit E"
    by (rule validUUID_split)
  have g: "uuidGroups u = [A, B @ C, D @ take 4 E, drop 4 E]"
    unfolding u using l by (rule uuidGroups_split)
  have xE: "list_all isHexDigit (take 4 E)" "list_all isHexDigit (drop 4 E)"
    using x(5) list_all_take_drop [of isHexDigit E 4] by simp_all
  have "encodesGroup reference A \<and> decodesGroup reference A"
    using x(1) l(1) by (rule reference_codec_contract)
  moreover have "encodesGroup reference (B @ C) \<and> decodesGroup reference (B @ C)"
    using x l by (intro reference_codec_contract) simp_all
  moreover have "encodesGroup reference (D @ take 4 E) \<and> decodesGroup reference (D @ take 4 E)"
    using x xE l by (intro reference_codec_contract) simp_all
  moreover have "encodesGroup reference (drop 4 E) \<and> decodesGroup reference (drop 4 E)"
    using xE l by (intro reference_codec_contract) simp_all
  ultimately show ?thesis unfolding g by simp
qed

lemma hexValue_nonneg: "0 \<le> hexValue s"
  by (induction s rule: rev_induct) (simp_all add: hexValue_def split: option.splits)

lemma reference_encodes_symbols: "list_all crockfordAnyCase (c32encode reference h)"
  using c32Digits_symbols [OF hexValue_nonneg] by (simp add: reference_def crockford_encode_def)

section \<open>The installed codec keeps the encoder's contract\<close>

text \<open>
  The codec as \<open>c32check\<close> computes it writes each group of a valid UUID string in at
  most 7 Crockford symbols, and every encoding in Crockford symbols: the hypotheses on the
  encoder hold of it. Its decoder does not invert the zero-padded encoding.
\<close>

lemma leadingZeroBytes_split:
  "h = replicate (2 * leadingZeroBytes h) CHR ''0'' @ drop (2 * leadingZeroBytes h) h"
  by (induction h rule: leadingZeroBytes.induct) auto

lemma leadingZeroBytes_le: "2 * leadingZeroBytes h \<le> length h"
  by (induction h rule: leadingZeroBytes.induct) auto

lemma hexValue_leading_zero_bytes:
  assumes "list_all (\<lambda>c. c \<in> set ''0123456789abcdef'') h"
  shows "0 \<le> hexValue h \<and> hexValue h < 16 ^ (length h - 2 * leadingZeroBytes h)"
proof -
  let ?k = "2 * leadingZeroBytes h"
  have "hexValue h = hexValue (replicate ?k CHR ''0'' @ drop ?k h)"
    using leadingZeroBytes_split [of h] by simp
  then have v: "hexValue h = hexValue (drop ?k h)" by (simp only: hexValue_zeros)
  have "list_all (\<lambda>c. c \<in> set ''0123456789abcdef'') (drop ?k h)"
    using assms list_all_take_drop [of _ h ?k] by blast
  from hexValue_bounds [OF this] v show ?thesis by simp
qed

lemma installed_encodes_group:
  assumes hex: "list_all isHexDigit g" and len: "length g = 8"
  shows "encodesGroup installed g"
proof -
  define h where "h = toLowerCase g"
  have bh: "bufferToHex (bufferFromHex g) = h"
    unfolding h_def using hex len by (simp add: hex_roundtrip)
  have lh: "list_all (\<lambda>c. c \<in> set ''0123456789abcdef'') h"
    using hex isHexDigit_lower by (auto simp add: h_def toLowerCase_def list_all_iff)
  have l8: "length h = 8" by (simp add: h_def toLowerCase_def len)
  have ev: "evenDigits h = h" by (simp add: evenDigits_def l8)
  define n where "n = hexValue h"
  define z where "z = leadingZeroBytes h"
  have n0: "0 \<le> n" and nb: "n < 16 ^ (8 - 2 * z)"
    using hexValue_leading_zero_bytes [OF lh] by (simp_all add: n_def z_def l8)
  have z4: "z \<le> 4" using leadingZeroBytes_le [of h] by (simp add: z_def l8)
  define d where "d = (if n = 0 then [] else c32Digits n)"
  have dl: "z + length d \<le> 7"
  proof -
    consider "z = 0" | "z = 1" | "z = 2" | "z = 3" | "z = 4" using z4 by arith
    then show ?thesis
    proof cases
      case 1
      with nb have "n < 32 ^ Suc 6" by simp
      with n0 have "length (c32Digits n) \<le> 7" using c32Digits_length [of n 6] by simp
      with 1 show ?thesis by (simp add: d_def)
    next
      case 2
      with nb have "n < 32 ^ Suc 4" by simp
      with n0 have "length (c32Digits n) \<le> 5" using c32Digits_length [of n 4] by simp
      with 2 show ?thesis by (simp add: d_def)
    next
      case 3
      with nb have "n < 32 ^ Suc 3" by simp
      with n0 have "length (c32Digits n) \<le> 4" using c32Digits_length [of n 3] by simp
      with 3 show ?thesis by (simp add: d_def)
    next
      case 4
      with nb have "n < 32 ^ Suc 1" by simp
      with n0 have "length (c32Digits n) \<le> 2" using c32Digits_length [of n 1] by simp
      with 4 show ?thesis by (simp add: d_def)
    next
      case 5
      with nb n0 have "n = 0" by simp
      with 5 show ?thesis by (simp add: d_def)
    qed
  qed
  have zero: "crockfordAnyCase CHR ''0''"
    by (simp add: crockfordAnyCase_def upper_char_zero crockfordAlphabet_def)
  have ds: "list_all crockfordAnyCase d"
    using c32Digits_symbols [OF n0] by (simp add: d_def)
  have e: "c32encode installed h = replicate z CHR ''0'' @ d"
    by (simp add: installed_def c32check_encode_def ev Let_def n_def z_def d_def)
  show ?thesis
    using dl ds zero by (auto simp add: encodesGroup_def bh e list_all_iff)
qed

lemma installed_encodes_valid_uuid:
  assumes "validUUID u"
  shows "\<forall>g\<in>set (uuidGroups u). encodesGroup installed g"
proof -
  from assms obtain A B C D E where
    u: "u = A @ CHR ''-'' # B @ CHR ''-'' # C @ CHR ''-'' # D @ CHR ''-'' # E"
    and l: "length A = 8" "length B = 4" "length C = 4" "length D = 4" "length E = 12"
    and x: "list_all isHexDigit A" "list_all isHexDigit B" "list_all isHexDigit C"
      "list_all isHexDigit D" "list_all isHexDigit E"
    by (rule validUUID_split)
  have g: "uuidGroups u = [A, B @ C, D @ take 4 E, drop 4 E]"
    unfolding u using l by (rule uuidGroups_split)
  have xE: "list_all isHexDigit (take 4 E)" "list_all isHexDigit (drop 4 E)"
    using x(5) list_all_take_drop [of isHexDigit E 4] by simp_all
  have "encodesGroup installed A"
    using x(1) l(1) by (rule installed_encodes_group)
  moreover have "encodesGroup installed (B @ C)"
    using x l by (intro installed_encodes_group) simp_all
  moreover have "encodesGroup installed (D @ take 4 E)"
    using x xE l by (intro installed_encodes_group) simp_all
  moreover have "encodesGroup installed (drop 4 E)"
    using xE l by (intro installed_encodes_group) simp_all
  ultimately show ?thesis unfolding g by simp
qed

lemma installed_encodes_symbols: "list_all crockfordAnyCase (c32encode installed h)"
proof -
  have zero: "crockfordAnyCase CHR ''0''"
    by (simp add: crockfordAnyCase_def upper_char_zero crockfordAlphabet_def)
  show ?thesis
    using c32Digits_symbols [OF hexValue_nonneg] zero
    by (auto simp add: installed_def c32check_encode_def Let_def list_all_iff)
qed

section \<open>Runs on concrete inputs\<close>

lemma readme_checksum:
  "calculateChecksum reference
     \<lparr>prefix = ''MYPREFIX'', key = MkKey ''38QARV01ET0G6Z2CJD9VA2ZZAR0X'',
      entropy = ''SMJP4AMEEWHGZDCGDDBBF'', checksum = c\<rparr> = ''86887EAC''"
proof -
  have "calculateChecksum reference
     \<lparr>prefix = ''MYPREFIX'', key = MkKey ''38QARV01ET0G6Z2CJD9VA2ZZAR0X'',
      entropy = ''SMJP4AMEEWHGZDCGDDBBF'', checksum = []\<rparr> = ''86887EAC''"
    by code_simp
  then show ?thesis
    unfolding calculateChecksum_fields [of reference _ _ _ c "[]"] .
qed

theorem isValid_uppercase_only_witness:
  "isValid ''38QARV0-1ET0G6Z-2CJD9VA-2ZZAR0X'' \<and>
   keyShape crockfordUpper ''38QARV0-1ET0G6Z-2CJD9VA-2ZZAR0X'' \<and>
   \<not> isValid ''38QARV01ET0G6Z2CJD9VA2ZZAR0XZ'' \<and>
   \<not> keyShape crockfordUpper ''38QARV01ET0G6Z2CJD9VA2ZZAR0XZ''"
proof -
  have "keyShape crockfordUpper ''38QARV0-1ET0G6Z-2CJD9VA-2ZZAR0X''"
    by code_simp
  moreover have "\<not> keyShape crockfordUpper ''38QARV01ET0G6Z2CJD9VA2ZZAR0XZ''"
    by code_simp
  ultimately show ?thesis
    using isValid_uppercase_only [of "''38QARV0-1ET0G6Z-2CJD9VA-2ZZAR0X''"]
      isValid_uppercase_only [of "''38QARV01ET0G6Z2CJD9VA2ZZAR0XZ''"]
    by simp
qed

theorem Key_encode_fixed_width_witness:
  "validUUID ''d1756360-5da0-40df-9926-a76abff5601d'' \<and>
   list_all (encodesGroup reference) (uuidGroups ''d1756360-5da0-40df-9926-a76abff5601d'') \<and>
   (\<exists>k28 k31.
      Key_encode reference ''d1756360-5da0-40df-9926-a76abff5601d'' False = Inr k28 \<and>
      length (Key_toString k28) = 28 \<and>
      Key_encode reference ''d1756360-5da0-40df-9926-a76abff5601d'' True = Inr k31 \<and>
      length (Key_toString k31) = 31 \<and> Key_toString k31 ! 7 = CHR ''-'' \<and>
      Key_toString k31 ! 15 = CHR ''-'' \<and> Key_toString k31 ! 23 = CHR ''-'')"
proof -
  have 1: "validUUID ''d1756360-5da0-40df-9926-a76abff5601d''"
    by code_simp
  have 2: "list_all (encodesGroup reference)
             (uuidGroups ''d1756360-5da0-40df-9926-a76abff5601d'')"
    by code_simp
  from Key_encode_fixed_width [OF 1 2 [unfolded list_all_iff]] 1 2 show ?thesis by blast
qed

theorem calculateChecksum_crc32_hex_witness:
  "calculateChecksum reference
     \<lparr>prefix = ''MYPREFIX'', key = MkKey ''38QARV01ET0G6Z2CJD9VA2ZZAR0X'',
      entropy = ''SMJP4AMEEWHGZDCGDDBBF'', checksum = []\<rparr> = ''86887EAC'' \<and>
   hexValue ''86887EAC'' =
     uint (crc32 reference (utf8 (''MYPREFIX'' @ ''_'' @ ''38QARV01ET0G6Z2CJD9VA2ZZAR0X'' @
                                  ''SMJP4AMEEWHGZDCGDDBBF'')))"
proof -
  let ?A = "\<lparr>prefix = ''MYPREFIX'', key = MkKey ''38QARV01ET0G6Z2CJD9VA2ZZAR0X'',
             entropy = ''SMJP4AMEEWHGZDCGDDBBF'', checksum = []\<rparr>"
  have c: "calculateChecksum reference ?A = ''86887EAC''"
    by (rule readme_checksum)
  have "hexValue (calculateChecksum reference ?A) =
        uint (crc32 reference (utf8 (prefix ?A @ ''_'' @ Key_toString (key ?A) @ entropy ?A)))"
    using calculateChecksum_crc32_hex [of reference ?A] by blast
  then have "hexValue ''86887EAC'' =
        uint (crc32 reference (utf8 (''MYPREFIX'' @ ''_'' @ ''38QARV01ET0G6Z2CJD9VA2ZZAR0X'' @
                                     ''SMJP4AMEEWHGZDCGDDBBF'')))"
    unfolding c by (simp only: APIKey.simps Key.sel)
  with c show ?thesis by (rule conjI)
qed

text \<open>
  C8. With the reference codec, \<open>Key.encode('d1756360-5da0-40df-9926-a76abff5601d', false)\<close>
  is the key \<open>38QARV01ET0G6Z2CJD9VA2ZZAR0X\<close>, and \<open>toUUID()\<close> of that key is the UUID
  again.
\<close>

theorem sample_uuid_encodes_and_decodes:
  "Key_encode reference ''d1756360-5da0-40df-9926-a76abff5601d'' False =
     Inr (MkKey ''38QARV01ET0G6Z2CJD9VA2ZZAR0X'') \<and>
   Key_toString (MkKey ''38QARV01ET0G6Z2CJD9VA2ZZAR0X'') = ''38QARV01ET0G6Z2CJD9VA2ZZAR0X'' \<and>
   toUUID reference (MkKey ''38QARV01ET0G6Z2CJD9VA2ZZAR0X'') =
     Inr ''d1756360-5da0-40df-9926-a76abff5601d''"
  by code_simp

theorem APIKey_new_stores_checksum_witness:
  "APIKey_new reference ''MYPREFIX'' (MkKey ''38QARV01ET0G6Z2CJD9VA2ZZAR0X'')
     ''SMJP4AMEEWHGZDCGDDBBF'' ''not-hex!'' =
     \<lparr>prefix = ''MYPREFIX'', key = MkKey ''38QARV01ET0G6Z2CJD9VA2ZZAR0X'',
      entropy = ''SMJP4AMEEWHGZDCGDDBBF'', checksum = ''not-hex!''\<rparr> \<and>
   calculateChecksum reference
     \<lparr>prefix = ''MYPREFIX'', key = MkKey ''38QARV01ET0G6Z2CJD9VA2ZZAR0X'',
      entropy = ''SMJP4AMEEWHGZDCGDDBBF'', checksum = ''not-hex!''\<rparr> \<noteq> ''not-hex!''"
proof -
  have n: "''not-hex!'' \<noteq> []" by simp
  have m: "\<not> matchesHex8 ''not-hex!''" by code_simp
  from APIKey_new_stores_checksum [of "''not-hex!''" reference "''MYPREFIX''"
      "MkKey ''38QARV01ET0G6Z2CJD9VA2ZZAR0X''" "''SMJP4AMEEWHGZDCGDDBBF''"] n
  have "APIKey_new reference ''MYPREFIX'' (MkKey ''38QARV01ET0G6Z2CJD9VA2ZZAR0X'')
     ''SMJP4AMEEWHGZDCGDDBBF'' ''not-hex!'' =
     \<lparr>prefix = ''MYPREFIX'', key = MkKey ''38QARV01ET0G6Z2CJD9VA2ZZAR0X'',
      entropy = ''SMJP4AMEEWHGZDCGDDBBF'', checksum = ''not-hex!''\<rparr>"
    by blast
  moreover have "calculateChecksum reference
     \<lparr>prefix = ''MYPREFIX'', key = MkKey ''38QARV01ET0G6Z2CJD9VA2ZZAR0X'',
      entropy = ''SMJP4AMEEWHGZDCGDDBBF'', checksum = ''not-hex!''\<rparr> \<noteq> ''not-hex!''"
    using calculateChecksum_hex8 [of reference
        "\<lparr>prefix = ''MYPREFIX'', key = MkKey ''38QARV01ET0G6Z2CJD9VA2ZZAR0X'',
          entropy = ''SMJP4AMEEWHGZDCGDDBBF'', checksum = ''not-hex!''\<rparr>"] m
    by metis
  ultimately show ?thesis by (rule conjI)
qed

theorem parse_validation_order_witness:
  "parse reference ''MYPREFIX_38QARV01ET0G6Z2CJD9VA2ZZAR0XVNBP1HX5VMAJDWWHK7TZJ'' =
     Inl (ExpectedThreeParts 2) \<and>
   parse reference ''MYPREFIX_38QARV01ET0G6Z2CJD9VA2ZZAR0XSMJP4AMEEWHGZDCGDDBBF_86887EAC'' =
     Inr \<lparr>prefix = ''MYPREFIX'', key = MkKey ''38QARV01ET0G6Z2CJD9VA2ZZAR0X'',
          entropy = ''SMJP4AMEEWHGZDCGDDBBF'', checksum = ''86887EAC''\<rparr>"
proof -
  let ?s = "''MYPREFIX_38QARV01ET0G6Z2CJD9VA2ZZAR0XVNBP1HX5VMAJDWWHK7TZJ''"
  let ?p = "''MYPREFIX''"
  let ?r = "''38QARV01ET0G6Z2CJD9VA2ZZAR0XSMJP4AMEEWHGZDCGDDBBF''"
  let ?c = "''86887EAC''"
  note t = parse_validation_order [of reference ?s ?p ?r ?c]
  have s: "?s \<noteq> [] \<and> count_list ?s CHR ''_'' \<noteq> 2" by simp
  have n: "Suc (count_list ?s CHR ''_'') = 2" by simp
  have u: "CHR ''_'' \<notin> set ?p \<and> CHR ''_'' \<notin> set ?r \<and> CHR ''_'' \<notin> set ?c" by simp
  have v: "isValid (take 28 ?r)" by code_simp
  have k: "take 28 ?r = ''38QARV01ET0G6Z2CJD9VA2ZZAR0X''" "drop 28 ?r = ''SMJP4AMEEWHGZDCGDDBBF''"
    by simp_all
  have 1: "parse reference ?s = Inl (ExpectedThreeParts 2)"
    using t s n by metis
  have "parse reference (?p @ ''_'' @ ?r @ ''_'' @ ?c) =
     Inr \<lparr>prefix = ''MYPREFIX'', key = MkKey ''38QARV01ET0G6Z2CJD9VA2ZZAR0X'',
          entropy = ''SMJP4AMEEWHGZDCGDDBBF'', checksum = ''86887EAC''\<rparr>"
    using t [THEN conjunct2, THEN conjunct2, rule_format, OF u] v
    unfolding k by (simp add: readme_checksum)
  then have 2: "parse reference ''MYPREFIX_38QARV01ET0G6Z2CJD9VA2ZZAR0XSMJP4AMEEWHGZDCGDDBBF_86887EAC'' =
     Inr \<lparr>prefix = ''MYPREFIX'', key = MkKey ''38QARV01ET0G6Z2CJD9VA2ZZAR0X'',
          entropy = ''SMJP4AMEEWHGZDCGDDBBF'', checksum = ''86887EAC''\<rparr>"
    by simp
  from 1 2 show ?thesis by (rule conjI)
qed

theorem fresh_key_reparses_witness:
  "''MYPREFIX'' \<noteq> [] \<and> CHR ''_'' \<notin> set ''MYPREFIX'' \<and>
   length ''d1756360-5da0-40df-9926-a76abff5601d'' = 36 \<and>
   list_all (encodesGroup reference) (uuidGroups ''d1756360-5da0-40df-9926-a76abff5601d'') \<and>
   list_all crockfordAnyCase
     (c32encode reference (entropyDigestHex reference (entropySize (applyOptions With160BitEntropy)))) \<and>
   (\<exists>a. newAPIKey reference ''MYPREFIX'' ''d1756360-5da0-40df-9926-a76abff5601d''
          With160BitEntropy = Inr a \<and>
        APIKey_toString a =
          ''MYPREFIX_38QARV01ET0G6Z2CJD9VA2ZZAR0X1TRM5C6AW2XAEAKPFTY0G_9EB5D935'' \<and>
        parse reference ''MYPREFIX_38QARV01ET0G6Z2CJD9VA2ZZAR0X1TRM5C6AW2XAEAKPFTY0G_9EB5D935'' =
          Inr a)"
proof -
  let ?u = "''d1756360-5da0-40df-9926-a76abff5601d''"
  have 1: "''MYPREFIX'' \<noteq> []" by simp
  have 2: "CHR ''_'' \<notin> set ''MYPREFIX''" by simp
  have 3: "length ?u = 36" by simp
  have 4: "list_all (encodesGroup reference) (uuidGroups ?u)" by code_simp
  have 5: "list_all crockfordAnyCase
     (c32encode reference (entropyDigestHex reference (entropySize (applyOptions With160BitEntropy))))"
    by code_simp
  have run: "map_sum id APIKey_toString (newAPIKey reference ''MYPREFIX'' ?u With160BitEntropy) =
        Inr ''MYPREFIX_38QARV01ET0G6Z2CJD9VA2ZZAR0X1TRM5C6AW2XAEAKPFTY0G_9EB5D935''"
    by code_simp
  from fresh_key_reparses [OF 1 2 3 4 [unfolded list_all_iff] 5]
  obtain a where a: "newAPIKey reference ''MYPREFIX'' ?u With160BitEntropy = Inr a"
    "parse reference (APIKey_toString a) = Inr a"
    by blast
  from run a(1) have ts: "APIKey_toString a =
      ''MYPREFIX_38QARV01ET0G6Z2CJD9VA2ZZAR0X1TRM5C6AW2XAEAKPFTY0G_9EB5D935''"
    by simp
  from a ts have "\<exists>a. newAPIKey reference ''MYPREFIX'' ?u With160BitEntropy = Inr a \<and>
        APIKey_toString a =
          ''MYPREFIX_38QARV01ET0G6Z2CJD9VA2ZZAR0X1TRM5C6AW2XAEAKPFTY0G_9EB5D935'' \<and>
        parse reference ''MYPREFIX_38QARV01ET0G6Z2CJD9VA2ZZAR0X1TRM5C6AW2XAEAKPFTY0G_9EB5D935'' =
          Inr a"
    by metis
  with 1 2 3 4 5 show ?thesis by blast
qed

theorem underscore_prefix_not_reparseable_witness:
  "''MY_PREFIX'' \<noteq> [] \<and> CHR ''_'' \<in> set ''MY_PREFIX'' \<and>
   validUUID ''d1756360-5da0-40df-9926-a76abff5601d'' \<and>
   list_all (encodesGroup reference) (uuidGroups ''d1756360-5da0-40df-9926-a76abff5601d'') \<and>
   (\<exists>a n. newAPIKey reference ''MY_PREFIX'' ''d1756360-5da0-40df-9926-a76abff5601d''
            With160BitEntropy = Inr a \<and> prefix a = ''MY_PREFIX'' \<and> 3 < n \<and>
          parse reference (APIKey_toString a) = Inl (ExpectedThreeParts n))"
proof -
  let ?u = "''d1756360-5da0-40df-9926-a76abff5601d''"
  have 1: "''MY_PREFIX'' \<noteq> []" by simp
  have 2: "CHR ''_'' \<in> set ''MY_PREFIX''" by simp
  have 3: "validUUID ?u" by code_simp
  have 4: "list_all (encodesGroup reference) (uuidGroups ?u)" by code_simp
  from underscore_prefix_not_reparseable [OF 1 2 3 4 [unfolded list_all_iff], of With160BitEntropy]
    1 2 3 4 show ?thesis by blast
qed

text \<open>
  C1. The round trip of \<open>Key.encode\<close> and \<open>toUUID\<close> fails on the code as installed.
  The UUID \<open>12345678-9abc-4def-8123-456789abcdef\<close> is valid and its first group is
  below \<open>2 ^ 30\<close>, so the group has 6 symbols and \<open>encodePart\<close> pads it with one
  \<open>0\<close>: \<open>Key.encode\<close> returns \<open>0938NKR2DBRKFF20J6HB724TQKFF\<close>. The decoder
  turns the padding \<open>0\<close> into a byte \<open>00\<close>, \<open>decode\<close> does not take it off, and
  \<open>toUUID\<close> returns \<open>0012345678-9abc-4def-8123-456789abcdef\<close>, 38 characters, which
  is not the UUID in any case of its letters.
\<close>

theorem toUUID_of_padded_group:
  "validUUID ''12345678-9abc-4def-8123-456789abcdef'' \<and>
   Key_encode installed ''12345678-9abc-4def-8123-456789abcdef'' False =
     Inr (MkKey ''0938NKR2DBRKFF20J6HB724TQKFF'') \<and>
   toUUID installed (MkKey ''0938NKR2DBRKFF20J6HB724TQKFF'') =
     Inr ''0012345678-9abc-4def-8123-456789abcdef'' \<and>
   toLowerCase ''0012345678-9abc-4def-8123-456789abcdef'' \<noteq>
     toLowerCase ''12345678-9abc-4def-8123-456789abcdef''"
  by code_simp


end
